theory Spec2Isabelle
  imports Complex_Main
begin

section \<open>Errors\<close>

text \<open>
  The exceptions that \<^verbatim>\<open>_image.py\<close>, the Python built-ins and the libraries it calls
  can raise. \<open>DecoderError\<close> stands for a failure of the external TIFF decoder other
  than the named ones, \<open>IOError\<close> for a file that cannot be opened.
\<close>

datatype error =
    ValueError
  | IndexError
  | TypeError
  | NotImplementedError
  | ZeroDivisionError
  | OverflowError
  | DecoderError
  | IOError

text \<open>A list of results evaluated left to right: the first exception wins.\<close>

fun sequence :: "(error + 'a) list \<Rightarrow> error + 'a list" where
  "sequence [] = Inr []"
| "sequence (Inl e # rs) = Inl e"
| "sequence (Inr x # rs) = (case sequence rs of Inl e \<Rightarrow> Inl e | Inr xs \<Rightarrow> Inr (x # xs))"

section \<open>Slices and their length\<close>

text \<open>
  A Python \<^verbatim>\<open>slice(start, stop, step)\<close>; each component is an integer or None.
  Python integers are unbounded.
\<close>

record slice =
  start :: "int option"
  stop :: "int option"
  step :: "int option"

text \<open>\<^verbatim>\<open>slice(None, None, None)\<close>, the full range.\<close>

definition full_slice :: slice where
  "full_slice = \<lparr>start = None, stop = None, step = None\<rparr>"

text \<open>
  The built-in \<^verbatim>\<open>slice.indices(length)\<close>, following CPython's
  \<^verbatim>\<open>slice_indices\<close> and \<^verbatim>\<open>_PySlice_GetLongIndices\<close>: a negative length and a
  zero step raise ValueError; a missing step is 1.
\<close>

definition step_of :: "slice \<Rightarrow> int" where
  "step_of s = (case step s of None \<Rightarrow> 1 | Some k \<Rightarrow> k)"

definition clamp_index :: "int \<Rightarrow> int \<Rightarrow> int \<Rightarrow> int \<Rightarrow> int" where
  "clamp_index lower upper n i =
     (if i < 0 then (if i + n < lower then lower else i + n)
      else (if i > upper then upper else i))"

definition slice_indices :: "slice \<Rightarrow> int \<Rightarrow> error + (int \<times> int \<times> int)" where
  "slice_indices s n =
     (let st = step_of s in
      if n < 0 then Inl ValueError
      else if st = 0 then Inl ValueError
      else
        let lower = (if st < 0 then - 1 else 0);
            upper = (if st < 0 then n - 1 else n);
            a = (case start s of
                   None \<Rightarrow> (if st < 0 then upper else lower)
                 | Some i \<Rightarrow> clamp_index lower upper n i);
            b = (case stop s of
                   None \<Rightarrow> (if st < 0 then lower else upper)
                 | Some i \<Rightarrow> clamp_index lower upper n i)
        in Inr (a, b, st))"

text \<open>
  \<^verbatim>\<open>slice_length(s, n)\<close>, lines 23-31. Python's \<^verbatim>\<open>//\<close> is floor division, as
  \<open>div\<close> on \<open>int\<close> is.
\<close>

definition slice_length :: "slice \<Rightarrow> int \<Rightarrow> error + int" where
  "slice_length s n =
     (case slice_indices s n of
        Inl e \<Rightarrow> Inl e
      | Inr (a, b, st) \<Rightarrow>
          if st > 0 then Inr (max 0 ((b - a + (st - 1)) div st))
          else if st < 0 then Inr (max 0 ((a - b - (st + 1)) div (- st)))
          else Inl ValueError)"

text \<open>
  The built-in \<^verbatim>\<open>range(start, stop, step)\<close>, materialised as the list of the
  indices it yields. A zero step yields nothing here; Python rejects it earlier.
\<close>

function py_range :: "int \<Rightarrow> int \<Rightarrow> int \<Rightarrow> int list" where
  "py_range a b c =
     (if 0 < c \<and> a < b then a # py_range (a + c) b c
      else if c < 0 \<and> b < a then a # py_range (a + c) b c
      else [])"
  by pat_completeness auto
termination
  by (relation "measure (\<lambda>(a, b, c). if 0 < c then nat (b - a) else nat (a - b))") auto

declare py_range.simps [simp del]

text \<open>
  The count as the specification words it: the exact quotient, its ceiling, and 0 when
  that is negative.
\<close>

definition ceil_count :: "int \<Rightarrow> int \<Rightarrow> int" where
  "ceil_count d k = max 0 \<lceil>(of_int d :: rat) / of_int k\<rceil>"

section \<open>Arrays\<close>

text \<open>
  A numpy array, as far as this module looks at it: its shape and its element at a
  multi-index. The element type is left at \<open>int\<close>.
\<close>

record ndarray =
  arr_shape :: "nat list"
  arr_at :: "nat list \<Rightarrow> int"

text \<open>
  \<^verbatim>\<open>np.stack(arrays, axis=-1)\<close>: the arrays must be at least one and of one shape
  (ValueError otherwise); element \<open>idx @ [c]\<close> of the result is element \<open>idx\<close> of
  array \<open>c\<close>.
\<close>

definition np_stack_last :: "ndarray list \<Rightarrow> error + ndarray" where
  "np_stack_last ps =
     (case ps of
        [] \<Rightarrow> Inl ValueError
      | p # qs \<Rightarrow>
          if list_all (\<lambda>q. arr_shape q = arr_shape p) qs
          then Inr \<lparr>arr_shape = arr_shape p @ [length ps],
                    arr_at = (\<lambda>idx. if idx \<noteq> [] \<and> last idx < length ps
                                     then arr_at (ps ! last idx) (butlast idx) else 0)\<rparr>
          else Inl ValueError)"

text \<open>\<^verbatim>\<open>np.transpose(data, (0, 2, 3, 1))\<close> of a four-dimensional array.\<close>

definition np_transpose_0231 :: "ndarray \<Rightarrow> ndarray" where
  "np_transpose_0231 a =
     \<lparr>arr_shape = (let s = arr_shape a in [s ! 0, s ! 2, s ! 3, s ! 1]),
      arr_at = (\<lambda>idx. case idx of
                  [f, y, x, c] \<Rightarrow> arr_at a [f, c, y, x]
                | _ \<Rightarrow> 0)\<rparr>"

text \<open>
  \<^verbatim>\<open>data[:, :, :, channel]\<close> on a four-dimensional array: an integer index on the
  last axis, negative from the end, IndexError out of bounds.
\<close>

definition np_select_channel :: "ndarray \<Rightarrow> int \<Rightarrow> error + ndarray" where
  "np_select_channel a ch =
     (let s = arr_shape a; n = int (s ! 3) in
      if ch < - n \<or> n \<le> ch then Inl IndexError
      else
        let c = nat (if ch < 0 then ch + n else ch)
        in Inr \<lparr>arr_shape = take 3 s, arr_at = (\<lambda>idx. arr_at a (idx @ [c]))\<rparr>)"

text \<open>
  \<^verbatim>\<open>frame[tuple(slices)]\<close>, basic indexing with one slice per leading dimension:
  more slices than dimensions raise IndexError, a zero step ValueError.
\<close>

definition np_getitem :: "ndarray \<Rightarrow> slice list \<Rightarrow> error + ndarray" where
  "np_getitem a ss =
     (if length (arr_shape a) < length ss then Inl IndexError
      else
        case sequence (map (\<lambda>(s, n). slice_indices s (int n)) (zip ss (arr_shape a))) of
          Inl e \<Rightarrow> Inl e
        | Inr tr \<Rightarrow>
            Inr \<lparr>arr_shape = map (\<lambda>(lo, hi, st). length (py_range lo hi st)) tr
                              @ drop (length ss) (arr_shape a),
                 arr_at = (\<lambda>idx. arr_at a
                             (map (\<lambda>((lo, hi, st), k). nat (lo + int k * st)) (zip tr idx)
                              @ drop (length ss) idx))\<rparr>)"

section \<open>Files\<close>

text \<open>
  A \<^verbatim>\<open>tifffile.TiffPageSeries\<close>: its shape (\<^verbatim>\<open>ndim\<close> is the length of the shape),
  its dtype, and the decoder \<^verbatim>\<open>asarray(key=k)\<close>, an external service that returns
  plane \<open>k\<close> or raises an exception of its own choice (tifffile raises IndexError for
  a key past the last plane).
\<close>

record tif_series =
  series_shape :: "nat list"
  series_dtype :: string
  asarray :: "int \<Rightarrow> error + ndarray"

datatype exif_value = VNone | VInt int | VTuple "int list"

record exif_tag =
  tag_name :: string
  tag_value :: exif_value

record tif_file =
  file_exif :: "int \<Rightarrow> exif_tag option"
  file_series :: "tif_series list"

type_synonym filesystem = "string \<Rightarrow> tif_file option"

section \<open>Metadata\<close>

record metadata =
  meta_filename :: string
  exif :: "int \<Rightarrow> exif_tag option"

text \<open>
  Modelled from the spec: \<^verbatim>\<open>_tif.read_exif\<close> is missing from the source files. The
  specification says the tag dictionary is a mapping from integer tag-id to a
  (name, value) pair sourced from a format-specific reader; here the reader returns
  the dictionary stored with the file, and fails on a file that does not exist.
\<close>

definition read_exif :: "filesystem \<Rightarrow> string \<Rightarrow> error + (int \<Rightarrow> exif_tag option)" where
  "read_exif fs fname = (case fs fname of None \<Rightarrow> Inl IOError | Some f \<Rightarrow> Inr (file_exif f))"

text \<open>
  \<^verbatim>\<open>Metadata.__init__\<close>, lines 43-48: the reader registered for the extension and
  the default reader are the same function.
\<close>

definition Metadata :: "filesystem \<Rightarrow> string \<Rightarrow> error + metadata" where
  "Metadata fs fname =
     (case read_exif fs fname of
        Inl e \<Rightarrow> Inl e
      | Inr d \<Rightarrow> Inr \<lparr>meta_filename = fname, exif = d\<rparr>)"

text \<open>\<^verbatim>\<open>Metadata.get\<close>, lines 50-53.\<close>

definition meta_get :: "metadata \<Rightarrow> int \<Rightarrow> exif_value \<Rightarrow> exif_value" where
  "meta_get m i dflt = (case exif m i of None \<Rightarrow> dflt | Some t \<Rightarrow> tag_value t)"

definition meta_shape :: "metadata \<Rightarrow> exif_value \<times> exif_value" where
  "meta_shape m = (let x = meta_get m 256 VNone; y = meta_get m 257 VNone in (y, x))"

definition bits :: "metadata \<Rightarrow> exif_value" where
  "bits m = meta_get m 258 VNone"

definition resolution_unit :: "metadata \<Rightarrow> exif_value" where
  "resolution_unit m = meta_get m 296 VNone"

text \<open>Python's truth value of a tag value: None, 0 and the empty tuple are false.\<close>

fun truthy :: "exif_value \<Rightarrow> bool" where
  "truthy VNone = False"
| "truthy (VInt n) = (n \<noteq> 0)"
| "truthy (VTuple xs) = (xs \<noteq> [])"

text \<open>
  \<^verbatim>\<open>Fraction(*x)\<close>: unpacking needs a tuple (TypeError otherwise); zero, one or two
  integers make a fraction, and \<^verbatim>\<open>Fraction(n, 0)\<close> raises ZeroDivisionError.
\<close>

fun Fraction :: "exif_value \<Rightarrow> error + rat" where
  "Fraction (VTuple []) = Inr 0"
| "Fraction (VTuple [n]) = Inr (of_int n)"
| "Fraction (VTuple [n, d]) = (if d = 0 then Inl ZeroDivisionError else Inr (Fract n d))"
| "Fraction _ = Inl TypeError"

text \<open>
  A Python number as \<^verbatim>\<open>resolution\<close> returns it: an \<^verbatim>\<open>int\<close>, or a \<^verbatim>\<open>float\<close> given
  by the rational it is exactly. Python's \<^verbatim>\<open>==\<close> between the two compares values.
\<close>

datatype pynum = PyInt int | PyFloat rat

fun num_value :: "pynum \<Rightarrow> rat" where
  "num_value (PyInt i) = of_int i"
| "num_value (PyFloat q) = q"

definition py_eq :: "pynum \<Rightarrow> pynum \<Rightarrow> bool" where
  "py_eq a b = (num_value a = num_value b)"

text \<open>
  One component of \<^verbatim>\<open>resolution\<close>, lines 70-71:
  \<^verbatim>\<open>float(Fraction(*x)) if x else 1\<close>. The parameter \<open>fl\<close> is \<^verbatim>\<open>float()\<close> on an
  exact rational: the double it rounds to, or \<open>None\<close> where \<^verbatim>\<open>float()\<close> raises
  OverflowError because the value is beyond the doubles. The other branch is the
  integer 1.
\<close>

definition resolution_of :: "(rat \<Rightarrow> rat option) \<Rightarrow> exif_value \<Rightarrow> error + pynum" where
  "resolution_of fl x =
     (if truthy x
      then (case Fraction x of
              Inl e \<Rightarrow> Inl e
            | Inr q \<Rightarrow> (case fl q of None \<Rightarrow> Inl OverflowError | Some v \<Rightarrow> Inr (PyFloat v)))
      else Inr (PyInt 1))"

text \<open>\<^verbatim>\<open>Metadata.resolution\<close>, lines 66-72.\<close>

definition resolution :: "(rat \<Rightarrow> rat option) \<Rightarrow> metadata \<Rightarrow> error + (pynum \<times> pynum)" where
  "resolution fl m =
     (let x = meta_get m 282 VNone;
          y = meta_get m 283 VNone
      in case resolution_of fl x of
           Inl e \<Rightarrow> Inl e
         | Inr x' \<Rightarrow> (case resolution_of fl y of
                        Inl e \<Rightarrow> Inl e
                      | Inr y' \<Rightarrow> Inr (y', x')))"

section \<open>Image handles\<close>

text \<open>
  Lists are mutable objects: a handle holds a reference to its \<^verbatim>\<open>slices\<close> list, and
  the lists live in a heap, addressed by position. A new list is allocated at the end.
\<close>

type_synonym heap = "slice list list"

definition alloc :: "heap \<Rightarrow> slice list \<Rightarrow> nat \<times> heap" where
  "alloc hp xs = (length hp, hp @ [xs])"

text \<open>\<^verbatim>\<open>xs[i] = v\<close>: IndexError when \<open>i\<close> is out of range (\<open>i\<close> is never negative here).\<close>

definition list_assign :: "'a list \<Rightarrow> nat \<Rightarrow> 'a \<Rightarrow> error + 'a list" where
  "list_assign xs i v = (if i < length xs then Inr (xs[i := v]) else Inl IndexError)"

record handle =
  filename :: string
  channel :: int
  meta :: metadata
  data :: tif_series
  slices :: nat

text \<open>The list that \<^verbatim>\<open>self.slices\<close> refers to.\<close>

definition slices_of :: "heap \<Rightarrow> handle \<Rightarrow> slice list" where
  "slices_of hp h = hp ! slices h"

subsection \<open>TifImageHandle\<close>

text \<open>\<^verbatim>\<open>TifImageHandle.get_data\<close>, lines 202-205: the first series of the file.\<close>

definition get_data :: "filesystem \<Rightarrow> string \<Rightarrow> error + tif_series" where
  "get_data fs fname =
     (case fs fname of
        None \<Rightarrow> Inl IOError
      | Some f \<Rightarrow> (case file_series f of [] \<Rightarrow> Inl IndexError | page # _ \<Rightarrow> Inr page))"

definition ndim :: "handle \<Rightarrow> nat" where
  "ndim h = length (series_shape (data h))"

text \<open>\<^verbatim>\<open>TifImageHandle.shape\<close>, lines 186-196.\<close>

definition shape :: "handle \<Rightarrow> nat list" where
  "shape h =
     (if ndim h < 4 then series_shape (data h)
      else let s = series_shape (data h) in [s ! 0, s ! 3, s ! 2, s ! 1])"

definition dtype :: "handle \<Rightarrow> string" where
  "dtype h = series_dtype (data h)"

text \<open>\<^verbatim>\<open>self.data.asarray(key=k)\<close>: what the decoder raises, \<^verbatim>\<open>get\<close> raises.\<close>

definition decode :: "handle \<Rightarrow> int \<Rightarrow> error + ndarray" where
  "decode h k = asarray (data h) k"

text \<open>
  \<^verbatim>\<open>TifImageHandle.get\<close>, lines 207-224. \<^verbatim>\<open>self.shape[0]\<close> raises IndexError on an
  empty shape.
\<close>

definition get :: "handle \<Rightarrow> int \<Rightarrow> error + ndarray" where
  "get h i =
     (case shape h of
        [] \<Rightarrow> Inl IndexError
      | N # _ \<Rightarrow>
          if \<not> (- int N < i \<and> i \<le> int N) then Inl IndexError
          else if ndim h = 4 then
            (let num_channels = shape h ! 3;
                 i' = i * int num_channels
             in case sequence (map (\<lambda>di. decode h (i' + int di)) [0..<num_channels]) of
                  Inl e \<Rightarrow> Inl e
                | Inr stack \<Rightarrow> np_stack_last stack)
          else decode h i)"

subsection \<open>ImageHandle\<close>

text \<open>
  \<^verbatim>\<open>ImageHandle.__init__\<close>, lines 108-115, for the TIFF subclass. \<^verbatim>\<open>channel or 1\<close>
  replaces None and 0 by 1. The new list of \<open>ndim\<close> full slices is allocated last.
\<close>

definition init :: "filesystem \<Rightarrow> string \<Rightarrow> int option \<Rightarrow> heap \<Rightarrow> (error + handle) \<times> heap" where
  "init fs fname ch hp =
     (case Metadata fs fname of
        Inl e \<Rightarrow> (Inl e, hp)
      | Inr m \<Rightarrow>
          (case get_data fs fname of
             Inl e \<Rightarrow> (Inl e, hp)
           | Inr d \<Rightarrow>
               let (r, hp') = alloc hp (replicate (length (series_shape d)) full_slice)
               in (Inr \<lparr>filename = fname,
                        channel = (case ch of None \<Rightarrow> 1 | Some c \<Rightarrow> if c = 0 then 1 else c),
                        meta = m, data = d, slices = r\<rparr>, hp')))"

text \<open>\<^verbatim>\<open>slice_shape\<close>, lines 137-140; \<^verbatim>\<open>zip\<close> stops at the shorter list.\<close>

definition slice_shape :: "heap \<Rightarrow> handle \<Rightarrow> error + int list" where
  "slice_shape hp h =
     sequence (map (\<lambda>(s, n). slice_length s (int n)) (zip (slices_of hp h) (shape h)))"

text \<open>\<^verbatim>\<open>copy\<close>, lines 142-143: a new handle on the same file name, opened again.\<close>

definition copy :: "filesystem \<Rightarrow> handle \<Rightarrow> heap \<Rightarrow> (error + handle) \<times> heap" where
  "copy fs h hp = init fs (filename h) (Some (channel h)) hp"

text \<open>
  \<^verbatim>\<open>__iter__\<close>, lines 145-151: the frames the generator yields, in order, and the
  exception that ends it, if any.
\<close>

fun yield_frames :: "handle \<Rightarrow> slice list \<Rightarrow> int list \<Rightarrow> ndarray list \<times> error option" where
  "yield_frames h rest [] = ([], None)"
| "yield_frames h rest (i # js) =
     (case get h i of
        Inl e \<Rightarrow> ([], Some e)
      | Inr frame \<Rightarrow>
          (case np_getitem frame rest of
             Inl e \<Rightarrow> ([], Some e)
           | Inr frame' \<Rightarrow>
               (case yield_frames h rest js of (frames, e) \<Rightarrow> (frame' # frames, e))))"

definition iter :: "heap \<Rightarrow> handle \<Rightarrow> ndarray list \<times> error option" where
  "iter hp h =
     (case slices_of hp h of
        [] \<Rightarrow> ([], Some IndexError)
      | s0 # rest \<Rightarrow>
          (case shape h of
             [] \<Rightarrow> ([], Some IndexError)
           | n0 # _ \<Rightarrow>
               (case slice_indices s0 (int n0) of
                  Inl e \<Rightarrow> ([], Some e)
                | Inr (a, b, c) \<Rightarrow> yield_frames h rest (py_range a b c))))"

text \<open>
  What is written between the brackets of \<^verbatim>\<open>handle[...]\<close>: an integer, a slice, a
  tuple of slices, or anything else (a string, a list, None).
\<close>

datatype other = OStr string | OList "int list" | ONone

datatype index = IInt int | ISlice slice | ITuple "slice list" | IOther other

text \<open>What \<^verbatim>\<open>__getitem__\<close> returns: a frame, a handle, or None.\<close>

datatype item = Frame ndarray | Handle handle | PyNone

text \<open>
  The loop of lines 169-171 on the list at address \<open>r\<close>, from position \<open>i\<close> on.
\<close>

fun set_slices :: "nat \<Rightarrow> nat \<Rightarrow> slice list \<Rightarrow> heap \<Rightarrow> (error + unit) \<times> heap" where
  "set_slices r i [] hp = (Inr (), hp)"
| "set_slices r i (s # ss) hp =
     (if s \<noteq> full_slice then
        (case list_assign (hp ! r) i s of
           Inl e \<Rightarrow> (Inl e, hp)
         | Inr xs \<Rightarrow> set_slices r (Suc i) ss (hp[r := xs]))
      else set_slices r (Suc i) ss hp)"

text \<open>
  \<^verbatim>\<open>__getitem__\<close>, lines 157-172. No branch takes a value that is neither an
  integer, a slice nor a tuple: the function then ends and returns None.
\<close>

fun getitem :: "filesystem \<Rightarrow> handle \<Rightarrow> index \<Rightarrow> heap \<Rightarrow> (error + item) \<times> heap" where
  "getitem fs h (IInt i) hp =
     (case get h i of Inl e \<Rightarrow> (Inl e, hp) | Inr frame \<Rightarrow> (Inr (Frame frame), hp))"
| "getitem fs h (ISlice val) hp =
     (case copy fs h hp of
        (Inl e, hp1) \<Rightarrow> (Inl e, hp1)
      | (Inr obj, hp1) \<Rightarrow>
          (case list_assign (hp1 ! slices obj) 0 val of
             Inl e \<Rightarrow> (Inl e, hp1)
           | Inr xs \<Rightarrow> (Inr (Handle obj), hp1[slices obj := xs])))"
| "getitem fs h (ITuple val) hp =
     (case copy fs h hp of
        (Inl e, hp1) \<Rightarrow> (Inl e, hp1)
      | (Inr obj, hp1) \<Rightarrow>
          (let (r, hp2) = alloc hp1 (slices_of hp1 h);
               obj' = obj\<lparr>slices := r\<rparr>
           in case set_slices r 0 val hp2 of
                (Inl e, hp3) \<Rightarrow> (Inl e, hp3)
              | (Inr _, hp3) \<Rightarrow> (Inr (Handle obj'), hp3)))"
| "getitem fs h (IOther v) hp = (Inr PyNone, hp)"

text \<open>\<^verbatim>\<open>__len__\<close>, lines 174-175.\<close>

definition len :: "heap \<Rightarrow> handle \<Rightarrow> error + int" where
  "len hp h =
     (case slice_shape hp h of
        Inl e \<Rightarrow> Inl e
      | Inr [] \<Rightarrow> Inl IndexError
      | Inr (n # _) \<Rightarrow> Inr n)"

section \<open>Reading\<close>

text \<open>\<^verbatim>\<open>s.split('.')\<close>: the pieces between the dots, at least one.\<close>

fun split_dot :: "string \<Rightarrow> string list" where
  "split_dot [] = [[]]"
| "split_dot (c # cs) =
     (if c = CHR ''.'' then [] # split_dot cs
      else (case split_dot cs of [] \<Rightarrow> [[c]] | w # ws \<Rightarrow> (c # w) # ws))"

text \<open>
  The eager readers, \<^verbatim>\<open>_tif.read\<close>, \<^verbatim>\<open>imageio.imread\<close>, \<^verbatim>\<open>_nd2.read\<close> and
  \<^verbatim>\<open>_avi.read\<close>, are external: each takes a path and returns an array or raises.
\<close>

record readers =
  tif_read :: "string \<Rightarrow> error + ndarray"
  imageio_imread :: "string \<Rightarrow> error + ndarray"
  nd2_read :: "string \<Rightarrow> error + ndarray"
  avi_read :: "string \<Rightarrow> error + ndarray"

text \<open>The two dispatch tables of \<^verbatim>\<open>imread\<close>, lines 238-240 and 244-251.\<close>

definition lazy_table :: "string \<Rightarrow> (filesystem \<Rightarrow> string \<Rightarrow> int option \<Rightarrow> heap \<Rightarrow> (error + handle) \<times> heap) option" where
  "lazy_table ext = (if ext = ''tif'' then Some init else None)"

definition eager_table :: "readers \<Rightarrow> string \<Rightarrow> (string \<Rightarrow> error + ndarray) option" where
  "eager_table rd ext =
     (if ext = ''tif'' then Some (tif_read rd)
      else if ext = ''tiff'' then Some (tif_read rd)
      else if ext = ''png'' then Some (imageio_imread rd)
      else if ext = ''jpg'' then Some (imageio_imread rd)
      else if ext = ''nd2'' then Some (nd2_read rd)
      else if ext = ''avi'' then Some (avi_read rd)
      else None)"

datatype image = Lazy handle | Eager ndarray

text \<open>
  \<^verbatim>\<open>imread\<close>, lines 231-269. In the lazy branch the looked-up constructor is
  called without a test: calling None raises TypeError.
\<close>

definition imread ::
  "filesystem \<Rightarrow> readers \<Rightarrow> string \<Rightarrow> bool \<Rightarrow> int option \<Rightarrow> heap \<Rightarrow> (error + image) \<times> heap" where
  "imread fs rd filepath lazy ch hp =
     (if CHR ''.'' \<notin> set filepath then (Inl ValueError, hp)
      else
        let ext = last (split_dot filepath) in
        if lazy then
          (case lazy_table ext of
             None \<Rightarrow> (Inl TypeError, hp)
           | Some read_function \<Rightarrow>
               (case read_function fs filepath ch hp of
                  (Inl e, hp') \<Rightarrow> (Inl e, hp')
                | (Inr h, hp') \<Rightarrow> (Inr (Lazy h), hp')))
        else
          (case eager_table rd ext of
             None \<Rightarrow> (Inl NotImplementedError, hp)
           | Some read_function \<Rightarrow>
               (case read_function filepath of
                  Inl e \<Rightarrow> (Inl e, hp)
                | Inr data0 \<Rightarrow>
                    let data1 = (if length (arr_shape data0) = 4
                                 then np_transpose_0231 data0 else data0)
                    in case ch of
                         None \<Rightarrow> (Inr (Eager data1), hp)
                       | Some c \<Rightarrow>
                           if length (arr_shape data1) = 4
                           then (case np_select_channel data1 c of
                                   Inl e \<Rightarrow> (Inl e, hp)
                                 | Inr data2 \<Rightarrow> (Inr (Eager data2), hp))
                           else (Inl NotImplementedError, hp))))"

section \<open>The specification's own words\<close>

text \<open>
  Tuple indexing as the specification describes it: position by position, an entry of
  the tuple that is not the full range replaces the slice, every other position keeps
  the handle's slice.
\<close>

definition replace_non_default :: "slice list \<Rightarrow> slice list \<Rightarrow> slice list" where
  "replace_non_default old val =
     map (\<lambda>j. if j < length val \<and> val ! j \<noteq> full_slice then val ! j else old ! j)
       [0..<length old]"

text \<open>
  A 4D frame as the specification describes it: decode \<open>n\<close> consecutive planes from
  plane \<open>k\<close> on and stack them along a new trailing axis.
\<close>

definition stack_planes :: "handle \<Rightarrow> int \<Rightarrow> nat \<Rightarrow> error + ndarray" where
  "stack_planes h k n =
     (case sequence (map (\<lambda>c. decode h (k + int c)) [0..<n]) of
        Inl e \<Rightarrow> Inl e
      | Inr planes \<Rightarrow> np_stack_last planes)"

text \<open>
  The planes that \<^verbatim>\<open>get(i)\<close> asks the decoder for, in order, and their decoding up to
  the first exception.
\<close>

definition requested_planes :: "handle \<Rightarrow> int \<Rightarrow> int list" where
  "requested_planes h i =
     (if ndim h = 4 then map (\<lambda>c. i * int (shape h ! 3) + int c) [0..<shape h ! 3] else [i])"

definition decode_planes :: "handle \<Rightarrow> int \<Rightarrow> error + ndarray list" where
  "decode_planes h i = sequence (map (decode h) (requested_planes h i))"

text \<open>
  A resolution tag as a rational: absent, or (numerator, denominator). Its component
  of the resolution: the integer 1 when the tag is absent, ZeroDivisionError for a zero
  denominator, otherwise the float of the exact quotient (OverflowError where there is
  no such float). The components are computed for tag 282 first, then 283, and
  returned as (y, x).
\<close>

definition zero_denominator :: "(int \<times> int) option \<Rightarrow> bool" where
  "zero_denominator r = (case r of None \<Rightarrow> False | Some (n, d) \<Rightarrow> d = 0)"

definition rational_result :: "(rat \<Rightarrow> rat option) \<Rightarrow> (int \<times> int) option \<Rightarrow> error + pynum" where
  "rational_result fl r =
     (case r of
        None \<Rightarrow> Inr (PyInt 1)
      | Some (n, d) \<Rightarrow>
          if d = 0 then Inl ZeroDivisionError
          else (case fl (of_int n / of_int d) of
                  None \<Rightarrow> Inl OverflowError
                | Some v \<Rightarrow> Inr (PyFloat v)))"

definition x_then_y :: "error + pynum \<Rightarrow> error + pynum \<Rightarrow> error + (pynum \<times> pynum)" where
  "x_then_y rx ry =
     (case rx of
        Inl e \<Rightarrow> Inl e
      | Inr x \<Rightarrow> (case ry of Inl e \<Rightarrow> Inl e | Inr y \<Rightarrow> Inr (y, x)))"

definition rational_tag :: "(int \<times> int) option \<Rightarrow> exif_value option" where
  "rational_tag r = (case r of None \<Rightarrow> None | Some (n, d) \<Rightarrow> Some (VTuple [n, d]))"

section \<open>Invariants\<close>

text \<open>The invariant of a handle: its list exists and has one slice per dimension.\<close>

definition handle_inv :: "heap \<Rightarrow> handle \<Rightarrow> bool" where
  "handle_inv hp h = (slices h < length hp \<and> length (slices_of hp h) = ndim h)"

text \<open>The file of a handle still holds the series the handle was opened on.\<close>

definition opened :: "filesystem \<Rightarrow> handle \<Rightarrow> bool" where
  "opened fs h = (get_data fs (filename h) = Inr (data h))"

section \<open>Example files\<close>

text \<open>A constant array of a given shape.\<close>

definition const_array :: "nat list \<Rightarrow> int \<Rightarrow> ndarray" where
  "const_array sh v = \<lparr>arr_shape = sh, arr_at = (\<lambda>idx. v)\<rparr>"

text \<open>
  A decoder over \<open>n\<close> planes of one shape, plane \<open>k\<close> constant \<open>k\<close>: the keys
  \<open>0..<n\<close> address the planes, the keys \<open>- n..<0\<close> address them from the end, and
  any other key, as the key \<open>n\<close> past the last plane, raises IndexError.
\<close>

definition frame_decoder :: "nat \<Rightarrow> nat list \<Rightarrow> int \<Rightarrow> error + ndarray" where
  "frame_decoder n sh k =
     (if 0 \<le> k \<and> k < int n then Inr (const_array sh k)
      else if - int n \<le> k \<and> k < 0 then Inr (const_array sh (k + int n))
      else Inl IndexError)"

text \<open>A three-dimensional TIFF of 10 frames of 20 by 30 pixels.\<close>

definition series3 :: tif_series where
  "series3 = \<lparr>series_shape = [10, 20, 30], series_dtype = ''uint8'',
              asarray = frame_decoder 10 [20, 30]\<rparr>"

text \<open>
  A four-dimensional TIFF of 5 frames, 2 channels, 4 by 3 pixels, stored as 10 planes.
\<close>

definition series4 :: tif_series where
  "series4 = \<lparr>series_shape = [5, 2, 4, 3], series_dtype = ''uint8'',
              asarray = frame_decoder 10 [4, 3]\<rparr>"

definition example_fs :: filesystem where
  "example_fs fname =
     (if fname = ''a.tif'' then Some \<lparr>file_exif = (\<lambda>i. None), file_series = [series3]\<rparr>
      else if fname = ''b.tif'' then Some \<lparr>file_exif = (\<lambda>i. None), file_series = [series4]\<rparr>
      else None)"

text \<open>The slice \<^verbatim>\<open>a:b\<close>.\<close>

definition range_slice :: "int \<Rightarrow> int \<Rightarrow> slice" where
  "range_slice a b = \<lparr>start = Some a, stop = Some b, step = None\<rparr>"

text \<open>
  The handle that \<^verbatim>\<open>imread('a.tif', lazy=True)\<close> returns on an empty heap, and the
  handle \<^verbatim>\<open>narrowed = fresh[:, :, 3:7]\<close> with the heap after that indexing.
\<close>

definition fresh :: handle where
  "fresh = \<lparr>filename = ''a.tif'', channel = 1,
             meta = \<lparr>meta_filename = ''a.tif'', exif = (\<lambda>i. None)\<rparr>,
             data = series3, slices = 0\<rparr>"

definition narrowed :: handle where
  "narrowed = fresh\<lparr>slices := 2\<rparr>"

definition narrowed_heap :: heap where
  "narrowed_heap =
     [[full_slice, full_slice, full_slice],
      [full_slice, full_slice, full_slice],
      [full_slice, full_slice, range_slice 3 7]]"

text \<open>
  The heaps after \<^verbatim>\<open>narrowed[2:5][:, 0:10]\<close> and after \<^verbatim>\<open>narrowed[2:5, 0:10]\<close>, each
  started from \<open>narrowed_heap\<close>.
\<close>

definition composed_heap :: heap where
  "composed_heap =
     narrowed_heap @
     [[range_slice 2 5, full_slice, full_slice],
      [full_slice, full_slice, full_slice],
      [range_slice 2 5, range_slice 0 10, full_slice]]"

definition direct_heap :: heap where
  "direct_heap =
     narrowed_heap @
     [[full_slice, full_slice, full_slice],
      [range_slice 2 5, range_slice 0 10, range_slice 3 7]]"

text \<open>
  Eager readers: the TIFF reader returns a (frames, channels, y, x) array of shape
  (1, 2, 1, 1), the imageio reader a three-dimensional array.
\<close>

definition example_readers :: readers where
  "example_readers =
     \<lparr>tif_read = (\<lambda>p. Inr (const_array [1, 2, 1, 1] 7)),
      imageio_imread = (\<lambda>p. Inr (const_array [2, 3, 4] 5)),
      nd2_read = (\<lambda>p. Inl IOError),
      avi_read = (\<lambda>p. Inl IOError)\<rparr>"

text \<open>A \<^verbatim>\<open>float()\<close> that is exact and never overflows, and metadata without tags.\<close>

definition exact_float :: "rat \<Rightarrow> rat option" where
  "exact_float q = Some q"

definition no_tags :: metadata where
  "no_tags = \<lparr>meta_filename = ''a.tif'', exif = (\<lambda>i. None)\<rparr>"

text \<open>Metadata without tag 282 and with resolution 300/2 in tag 283.\<close>

definition example_meta :: metadata where
  "example_meta =
     \<lparr>meta_filename = ''a.tif'',
      exif = (\<lambda>i. if i = 283 then Some \<lparr>tag_name = ''YResolution'', tag_value = VTuple [300, 2]\<rparr>
                   else None)\<rparr>"

text \<open>Metadata with a zero denominator in tag 282.\<close>

definition bad_meta :: metadata where
  "bad_meta =
     \<lparr>meta_filename = ''a.tif'',
      exif = (\<lambda>i. if i = 282 then Some \<lparr>tag_name = ''XResolution'', tag_value = VTuple [72, 0]\<rparr>
                   else None)\<rparr>"

section \<open>The length of a slice\<close>


lemma div_step_pos:
  fixes a b c :: int
  assumes "0 < c"
  shows "(b - (a + c) + (c - 1)) div c = (b - a + (c - 1)) div c - 1"
proof -
  have ne: "c \<noteq> 0" using assms by simp
  have e: "b - a + (c - 1) = (b - (a + c) + (c - 1)) + c" by linarith
  have "(b - a + (c - 1)) div c = ((b - (a + c) + (c - 1)) + c) div c"
    by (rule arg_cong [where f = "\<lambda>x. x div c"]) (rule e)
  also have "\<dots> = (b - (a + c) + (c - 1)) div c + 1"
    by (rule div_add_self2 [OF ne])
  finally show ?thesis by simp
qed

lemma div_pos_ge1:
  fixes d c :: int
  assumes "0 < c" "0 < d"
  shows "1 \<le> (d + (c - 1)) div c"
proof -
  have "c \<le> d + (c - 1)" using assms by simp
  then have "c div c \<le> (d + (c - 1)) div c"
    using assms(1) by (intro zdiv_mono1) auto
  then show ?thesis using assms(1) by simp
qed

lemma div_nonpos:
  fixes d c :: int
  assumes "0 < c" "d \<le> 0"
  shows "(d + (c - 1)) div c \<le> 0"
proof -
  have "d + (c - 1) \<le> c - 1" using assms by simp
  then have "(d + (c - 1)) div c \<le> (c - 1) div c"
    using assms(1) by (intro zdiv_mono1) auto
  moreover have "(c - 1) div c = 0"
    using assms(1) by (intro div_pos_pos_trivial) auto
  ultimately show ?thesis by simp
qed

lemma py_range_step_pos: "0 < c \<Longrightarrow> a < b \<Longrightarrow> py_range a b c = a # py_range (a + c) b c"
  by (subst py_range.simps) simp

lemma py_range_stop_pos: "0 < c \<Longrightarrow> \<not> a < b \<Longrightarrow> py_range a b c = []"
  by (subst py_range.simps) simp

lemma py_range_step_neg: "c < 0 \<Longrightarrow> b < a \<Longrightarrow> py_range a b c = a # py_range (a + c) b c"
  by (subst py_range.simps) simp

lemma py_range_stop_neg: "c < 0 \<Longrightarrow> \<not> b < a \<Longrightarrow> py_range a b c = []"
  by (subst py_range.simps) simp

lemma py_range_zero: "py_range a b 0 = []"
  by (subst py_range.simps) simp

lemma length_py_range_pos:
  "0 < c \<Longrightarrow> int (length (py_range a b c)) = max 0 ((b - a + (c - 1)) div c)"
proof (induction a b c rule: py_range.induct)
  case (1 a b c)
  note pos = \<open>0 < c\<close>
  show ?case
  proof (cases "a < b")
    case True
    have ih: "int (length (py_range (a + c) b c)) = max 0 ((b - (a + c) + (c - 1)) div c)"
      by (rule "1.IH"(1)) (use pos True in blast)+
    have ge: "1 \<le> (b - a + (c - 1)) div c"
      by (rule div_pos_ge1) (use pos True in linarith)+
    have st: "(b - (a + c) + (c - 1)) div c = (b - a + (c - 1)) div c - 1"
      by (rule div_step_pos) (rule pos)
    have "int (length (py_range a b c)) = 1 + int (length (py_range (a + c) b c))"
      by (simp only: py_range_step_pos [OF pos True] list.size length_Cons of_nat_Suc)
    also have "\<dots> = 1 + max 0 ((b - a + (c - 1)) div c - 1)"
      by (simp only: ih st)
    also have "\<dots> = max 0 ((b - a + (c - 1)) div c)"
      using ge by linarith
    finally show ?thesis .
  next
    case False
    have e: "py_range a b c = []"
      by (rule py_range_stop_pos) (use pos False in blast)+
    have "(b - a + (c - 1)) div c \<le> 0"
      by (rule div_nonpos) (use pos False in linarith)+
    then show ?thesis by (simp add: e)
  qed
qed

lemma py_range_neg_flip:
  "c < 0 \<Longrightarrow> length (py_range a b c) = length (py_range (- a) (- b) (- c))"
proof (induction a b c rule: py_range.induct)
  case (1 a b c)
  note neg = \<open>c < 0\<close>
  have pos: "0 < - c" using neg by simp
  show ?case
  proof (cases "b < a")
    case True
    have lt: "- a < - b" using True by simp
    have ih: "length (py_range (a + c) b c) = length (py_range (- (a + c)) (- b) (- c))"
      by (rule "1.IH"(2)) (use neg True in linarith)+
    have m: "- (a + c) = - a + - c" by simp
    show ?thesis
      by (simp only: py_range_step_neg [OF neg True] py_range_step_pos [OF pos lt] length_Cons ih m)
  next
    case False
    have nlt: "\<not> - a < - b" using False by simp
    show ?thesis
      by (simp only: py_range_stop_neg [OF neg False] py_range_stop_pos [OF pos nlt])
  qed
qed

lemma length_py_range_neg:
  assumes "c < 0"
  shows "int (length (py_range a b c)) = max 0 ((a - b - (c + 1)) div (- c))"
proof -
  have "int (length (py_range a b c)) = int (length (py_range (- a) (- b) (- c)))"
    using py_range_neg_flip [OF assms] by simp
  also have "\<dots> = max 0 ((- b - - a + (- c - 1)) div (- c))"
    using length_py_range_pos [of "- c" "- a" "- b"] assms by simp
  also have "- b - - a + (- c - 1) = a - b - (c + 1)" by simp
  finally show ?thesis .
qed

lemma ceil_div_int:
  fixes d k :: int
  assumes "0 < k"
  shows "- ((- d) div k) = (d + (k - 1)) div k"
proof (cases "d mod k = 0")
  case True
  have "d + (k - 1) = k * (d div k) + (k - 1)"
    using True mult_div_mod_eq [of k d] by linarith
  then have "(d + (k - 1)) div k = d div k"
    by (rule int_div_pos_eq [where r = "k - 1"]) (use assms in linarith)+
  moreover have "(- d) div k = - (d div k)"
    using True assms by (simp add: zdiv_zminus1_eq_if)
  ultimately show ?thesis by simp
next
  case False
  have "0 \<le> d mod k" using assms by (rule pos_mod_sign)
  moreover have "d mod k < k" using assms by (rule pos_mod_bound)
  ultimately have r: "0 < d mod k" "d mod k < k"
    using False by linarith+
  have "k * (d div k + 1) = k * (d div k) + k"
    by (simp only: distrib_left mult_1_right)
  then have "d + (k - 1) = k * (d div k + 1) + (d mod k - 1)"
    using mult_div_mod_eq [of k d] by linarith
  then have "(d + (k - 1)) div k = d div k + 1"
    by (rule int_div_pos_eq [where r = "d mod k - 1"]) (use r in linarith)+
  moreover have "(- d) div k = - (d div k) - 1"
    using False assms by (simp add: zdiv_zminus1_eq_if)
  ultimately show ?thesis by simp
qed

lemma ceil_count_div:
  assumes "0 < k"
  shows "ceil_count d k = max 0 ((d + (k - 1)) div k)"
proof -
  have "\<lceil>(of_int d :: rat) / of_int k\<rceil> = - ((- d) div k)"
    by (simp add: ceiling_divide_eq_div)
  then show ?thesis
    by (simp only: ceil_count_def ceil_div_int [OF assms])
qed

lemma py_range_bounds_pos:
  "0 < c \<Longrightarrow> x \<in> set (py_range a b c) \<Longrightarrow> a \<le> x \<and> x < b"
proof (induction a b c rule: py_range.induct)
  case (1 a b c)
  note pos = \<open>0 < c\<close>
  show ?case
  proof (cases "a < b")
    case True
    from "1.prems"(2) have "x = a \<or> x \<in> set (py_range (a + c) b c)"
      by (simp add: py_range_step_pos [OF pos True])
    then show ?thesis
    proof
      assume "x = a" then show ?thesis using True by simp
    next
      assume m: "x \<in> set (py_range (a + c) b c)"
      have "a + c \<le> x \<and> x < b"
        by (rule "1.IH"(1)) (use pos True m in blast)+
      then show ?thesis using pos by linarith
    qed
  next
    case False
    from "1.prems"(2) show ?thesis by (simp add: py_range_stop_pos [OF pos False])
  qed
qed

lemma py_range_bounds_neg:
  "c < 0 \<Longrightarrow> x \<in> set (py_range a b c) \<Longrightarrow> b < x \<and> x \<le> a"
proof (induction a b c rule: py_range.induct)
  case (1 a b c)
  note neg = \<open>c < 0\<close>
  show ?case
  proof (cases "b < a")
    case True
    from "1.prems"(2) have "x = a \<or> x \<in> set (py_range (a + c) b c)"
      by (simp add: py_range_step_neg [OF neg True])
    then show ?thesis
    proof
      assume "x = a" then show ?thesis using True by simp
    next
      assume m: "x \<in> set (py_range (a + c) b c)"
      have "b < x \<and> x \<le> a + c"
        by (rule "1.IH"(2)) (use neg True m in linarith)+
      then show ?thesis using neg by linarith
    qed
  next
    case False
    from "1.prems"(2) show ?thesis by (simp add: py_range_stop_neg [OF neg False])
  qed
qed

lemma clamp_index_bounds:
  "lower \<le> upper \<Longrightarrow> lower \<le> 0 \<Longrightarrow> n - 1 \<le> upper \<Longrightarrow>
   lower \<le> clamp_index lower upper n i \<and> clamp_index lower upper n i \<le> upper"
  by (auto simp: clamp_index_def)

lemma slice_indices_pos:
  assumes "0 \<le> n" "0 < step_of s"
  shows "\<exists>a b. slice_indices s n = Inr (a, b, step_of s) \<and> 0 \<le> a \<and> a \<le> n \<and> 0 \<le> b \<and> b \<le> n"
  using assms clamp_index_bounds [of 0 n n]
  by (auto simp: slice_indices_def step_of_def Let_def split: option.splits)

lemma slice_indices_neg:
  assumes "0 \<le> n" "step_of s < 0"
  shows "\<exists>a b. slice_indices s n = Inr (a, b, step_of s) \<and> - 1 \<le> a \<and> a \<le> n - 1 \<and> - 1 \<le> b \<and> b \<le> n - 1"
  using assms clamp_index_bounds [of "-1" "n - 1" n]
  by (auto simp: slice_indices_def step_of_def Let_def split: option.splits)

lemma slice_indices_zero:
  "step s = Some 0 \<Longrightarrow> slice_indices s n = Inl ValueError"
  by (simp add: slice_indices_def step_of_def)

text \<open>
  Claim C1. For every slice and every length \<open>n \<ge> 0\<close>: a zero step makes
  \<^verbatim>\<open>slice_length\<close> fail with ValueError; otherwise the slice resolves against \<open>n\<close>
  to \<open>(a, b, c)\<close> with \<open>c \<noteq> 0\<close>, every index of \<^verbatim>\<open>range(a, b, c)\<close> lies in
  \<open>0..<n\<close>, and \<^verbatim>\<open>slice_length\<close> returns the number of these indices, which is
  \<open>max 0 \<lceil>(b - a) / c\<rceil>\<close> for \<open>c > 0\<close> and \<open>max 0 \<lceil>(a - b) / (- c)\<rceil>\<close> for
  \<open>c < 0\<close>.
\<close>

theorem slice_length_counts:
  assumes "0 \<le> n"
  shows "(step s = Some 0 \<longrightarrow> slice_length s n = Inl ValueError) \<and>
         (step s \<noteq> Some 0 \<longrightarrow>
            (\<exists>a b c. slice_indices s n = Inr (a, b, c) \<and> c \<noteq> 0 \<and>
               (\<forall>i \<in> set (py_range a b c). 0 \<le> i \<and> i < n) \<and>
               slice_length s n = Inr (int (length (py_range a b c))) \<and>
               slice_length s n =
                 Inr (if 0 < c then ceil_count (b - a) c else ceil_count (a - b) (- c))))"
proof (intro conjI impI)
  assume "step s = Some 0"
  then show "slice_length s n = Inl ValueError"
    by (simp add: slice_length_def slice_indices_zero)
next
  assume nz: "step s \<noteq> Some 0"
  then have c0: "step_of s \<noteq> 0"
    by (auto simp: step_of_def split: option.splits)
  show "\<exists>a b c. slice_indices s n = Inr (a, b, c) \<and> c \<noteq> 0 \<and>
               (\<forall>i \<in> set (py_range a b c). 0 \<le> i \<and> i < n) \<and>
               slice_length s n = Inr (int (length (py_range a b c))) \<and>
               slice_length s n =
                 Inr (if 0 < c then ceil_count (b - a) c else ceil_count (a - b) (- c))"
  proof (cases "0 < step_of s")
    case True
    obtain a b where ab: "slice_indices s n = Inr (a, b, step_of s)"
        "0 \<le> a" "a \<le> n" "0 \<le> b" "b \<le> n"
      using slice_indices_pos [OF assms True] by blast
    have len: "slice_length s n = Inr (max 0 ((b - a + (step_of s - 1)) div step_of s))"
      using True by (simp add: slice_length_def ab(1))
    have bnd: "\<forall>i \<in> set (py_range a b (step_of s)). 0 \<le> i \<and> i < n"
      using py_range_bounds_pos [OF True] ab by force
    show ?thesis
      apply (rule exI [of _ a], rule exI [of _ b], rule exI [of _ "step_of s"])
      using True ab(1) bnd len
      by (simp add: length_py_range_pos [OF True] ceil_count_div [OF True])
  next
    case False
    then have neg: "step_of s < 0" using c0 by simp
    have pos: "0 < - step_of s" using neg by simp
    obtain a b where ab: "slice_indices s n = Inr (a, b, step_of s)"
        "- 1 \<le> a" "a \<le> n - 1" "- 1 \<le> b" "b \<le> n - 1"
      using slice_indices_neg [OF assms neg] by blast
    have len: "slice_length s n = Inr (max 0 ((a - b - (step_of s + 1)) div (- step_of s)))"
      using neg by (simp add: slice_length_def ab(1))
    have bnd: "\<forall>i \<in> set (py_range a b (step_of s)). 0 \<le> i \<and> i < n"
      using py_range_bounds_neg [OF neg] ab by force
    have e: "a - b + (- step_of s - 1) = a - b - (step_of s + 1)" by simp
    show ?thesis
      apply (rule exI [of _ a], rule exI [of _ b], rule exI [of _ "step_of s"])
      using neg ab(1) bnd len
      by (simp add: length_py_range_neg [OF neg] ceil_count_div [OF pos] e)
  qed
qed

theorem slice_length_counts_witness:
  "(0::int) \<le> 10 \<and> slice_length \<lparr>start = Some 8, stop = None, step = Some (- 3)\<rparr> 10 = Inr 3 \<and>
   slice_length \<lparr>start = Some 8, stop = None, step = Some 0\<rparr> 10 = Inl ValueError"
  using slice_length_counts [of 10 "\<lparr>start = Some 8, stop = None, step = Some (- 3)\<rparr>"]
        slice_length_counts [of 10 "\<lparr>start = Some 8, stop = None, step = Some 0\<rparr>"]
  by (simp add: slice_length_def slice_indices_def step_of_def clamp_index_def)

section \<open>Indexing with something else\<close>

text \<open>
  Claim C10. Indexing a handle with a value that is neither an integer, a slice nor a
  tuple raises nothing and returns None; the heap is as it was.
\<close>

theorem getitem_other_none: "getitem fs h (IOther v) hp = (Inr PyNone, hp)"
  by simp

section \<open>Lazy reading of an unregistered extension\<close>

lemma imread_lazy_unregistered:
  assumes "CHR ''.'' \<in> set path" and "last (split_dot path) \<noteq> ''tif''"
  shows "imread fs rd path True ch hp = (Inl TypeError, hp)"
  using assms by (simp add: imread_def lazy_table_def)

text \<open>
  Claim C6. A lazy read of a path whose extension is not \<^verbatim>\<open>tif\<close> is claimed to fail
  with NotImplementedError. The code calls the result of the table lookup without
  testing it: for \<^verbatim>\<open>x.png\<close> it raises TypeError, where the eager branch tests and
  raises NotImplementedError.
\<close>

theorem imread_lazy_png_type_error:
  "imread fs rd ''x.png'' True ch hp = (Inl TypeError, hp)"
  by (simp add: imread_def lazy_table_def)

section \<open>Resolution\<close>

lemma meta_get_rational:
  assumes "map_option tag_value (exif m i) = rational_tag r"
  shows "meta_get m i VNone = (case r of None \<Rightarrow> VNone | Some (n, d) \<Rightarrow> VTuple [n, d])"
  using assms
  by (cases "exif m i"; cases r) (auto simp: meta_get_def rational_tag_def)

lemma resolution_of_absent: "resolution_of fl VNone = Inr (PyInt 1)"
  by (simp add: resolution_of_def)

lemma resolution_of_pair:
  "resolution_of fl (VTuple [n, d]) =
     (if d = 0 then Inl ZeroDivisionError
      else (case fl (of_int n / of_int d) of
              None \<Rightarrow> Inl OverflowError
            | Some v \<Rightarrow> Inr (PyFloat v)))"
  by (simp add: resolution_of_def Fract_of_int_quotient)

lemma resolution_of_rational:
  assumes "map_option tag_value (exif m i) = rational_tag r"
  shows "resolution_of fl (meta_get m i VNone) = rational_result fl r"
proof (cases r)
  case None
  then show ?thesis
    using meta_get_rational [OF assms]
    by (simp add: resolution_of_absent rational_result_def)
next
  case (Some p)
  obtain n d where p: "p = (n, d)" by (cases p)
  show ?thesis
    using meta_get_rational [OF assms] Some p
    by (simp add: resolution_of_pair rational_result_def)
qed

lemma rational_result_zero:
  "zero_denominator r \<Longrightarrow> rational_result fl r = Inl ZeroDivisionError"
  by (auto simp: zero_denominator_def rational_result_def split: option.splits)

lemma rational_result_error:
  "rational_result fl r = Inl e \<Longrightarrow> e = ZeroDivisionError \<or> e = OverflowError"
  by (auto simp: rational_result_def split: option.splits if_splits)

lemma py_eq_default: "py_eq (PyInt 1) (PyFloat 1)"
  by (simp add: py_eq_def)

text \<open>
  Claim C9, amended. Let tags 282 and 283 each be absent or a rational (numerator,
  denominator). \<^verbatim>\<open>resolution\<close> computes a component for tag 282, then one for tag 283,
  and returns them as (y, x): a rational with a nonzero denominator gives the float of
  the exact quotient (OverflowError where the quotient is beyond the floats); an absent
  tag gives the integer 1, equal in value to 1.0 but not a float; a zero denominator
  makes the call fail with ZeroDivisionError, so that no infinity or NaN is returned.
\<close>

theorem resolution_rational:
  assumes "map_option tag_value (exif m 282) = rational_tag rx"
    and "map_option tag_value (exif m 283) = rational_tag ry"
  shows "resolution fl m = x_then_y (rational_result fl rx) (rational_result fl ry) \<and>
         (rx = None \<and> ry = None \<longrightarrow> resolution fl m = Inr (PyInt 1, PyInt 1)) \<and>
         (zero_denominator rx \<longrightarrow> resolution fl m = Inl ZeroDivisionError) \<and>
         (zero_denominator ry \<and> rational_result fl rx \<noteq> Inl OverflowError \<longrightarrow>
            resolution fl m = Inl ZeroDivisionError)"
proof -
  have x: "resolution_of fl (meta_get m 282 VNone) = rational_result fl rx"
    by (rule resolution_of_rational [OF assms(1)])
  have y: "resolution_of fl (meta_get m 283 VNone) = rational_result fl ry"
    by (rule resolution_of_rational [OF assms(2)])
  have eq: "resolution fl m = x_then_y (rational_result fl rx) (rational_result fl ry)"
    by (simp add: resolution_def Let_def x y x_then_y_def split: sum.splits)
  have none: "resolution fl m = Inr (PyInt 1, PyInt 1)" if "rx = None \<and> ry = None"
    using that by (simp add: eq x_then_y_def rational_result_def)
  have zx: "resolution fl m = Inl ZeroDivisionError" if "zero_denominator rx"
    using rational_result_zero [OF that] by (simp add: eq x_then_y_def)
  have zy: "resolution fl m = Inl ZeroDivisionError"
    if "zero_denominator ry \<and> rational_result fl rx \<noteq> Inl OverflowError"
  proof (cases "rational_result fl rx")
    case (Inl e)
    then have "e = ZeroDivisionError"
      using rational_result_error [of fl rx e] that by auto
    then show ?thesis using Inl by (simp add: eq x_then_y_def)
  next
    case (Inr v)
    have "rational_result fl ry = Inl ZeroDivisionError"
      using that by (simp add: rational_result_zero)
    then show ?thesis using Inr by (simp add: eq x_then_y_def)
  qed
  show ?thesis using eq none zx zy by blast
qed

text \<open>
  The claim as first stated has the float 1.0 for an absent tag. Without tags the
  call returns the integer 1 twice, which is not the float.
\<close>

theorem resolution_rational_counterexample:
  "resolution exact_float no_tags = Inr (PyInt 1, PyInt 1) \<and> PyInt 1 \<noteq> PyFloat 1"
  by (simp add: resolution_def resolution_of_def meta_get_def no_tags_def)

theorem resolution_rational_witness:
  "resolution exact_float example_meta = Inr (PyFloat 150, PyInt 1) \<and>
   resolution exact_float bad_meta = Inl ZeroDivisionError"
proof -
  have a: "map_option tag_value (exif example_meta 282) = rational_tag None"
    by (simp add: example_meta_def rational_tag_def)
  have b: "map_option tag_value (exif example_meta 283) = rational_tag (Some (300, 2))"
    by (simp add: example_meta_def rational_tag_def)
  have c: "map_option tag_value (exif bad_meta 282) = rational_tag (Some (72, 0))"
    by (simp add: bad_meta_def rational_tag_def)
  have d: "map_option tag_value (exif bad_meta 283) = rational_tag None"
    by (simp add: bad_meta_def rational_tag_def)
  have "resolution exact_float example_meta = Inr (PyFloat 150, PyInt 1)"
    using resolution_rational [OF a b, of exact_float]
    by (simp add: x_then_y_def rational_result_def exact_float_def)
  moreover have "resolution exact_float bad_meta = Inl ZeroDivisionError"
    using resolution_rational [OF c d, of exact_float]
    by (simp add: zero_denominator_def x_then_y_def rational_result_def)
  ultimately show ?thesis by simp
qed

section \<open>Frames of a four-dimensional TIFF\<close>


lemma sequence_append_Inr:
  "sequence rs = Inr xs \<Longrightarrow> sequence (rs @ [Inr x]) = Inr (xs @ [x])"
proof (induction rs arbitrary: xs rule: sequence.induct)
  case 1
  then show ?case by simp
next
  case (2 e rs)
  then show ?case by simp
next
  case (3 y rs)
  then show ?case by (auto split: sum.splits)
qed

lemma sequence_map_Inr:
  assumes "\<And>c. c < n \<Longrightarrow> f c = Inr (p c)"
  shows "sequence (map f [0..<n]) = Inr (map p [0..<n])"
  using assms
proof (induction n)
  case 0
  then show ?case by simp
next
  case (Suc n)
  have "sequence (map f [0..<n]) = Inr (map p [0..<n])"
    by (rule Suc.IH) (simp add: Suc.prems)
  then have "sequence (map f [0..<n] @ [Inr (p n)]) = Inr (map p [0..<n] @ [p n])"
    by (rule sequence_append_Inr)
  then show ?case by (simp add: Suc.prems)
qed

lemma np_stack_last_same_shape:
  assumes "ps \<noteq> []" and "list_all (\<lambda>q. arr_shape q = sh) ps"
  shows "np_stack_last ps =
     Inr \<lparr>arr_shape = sh @ [length ps],
          arr_at = (\<lambda>idx. if idx \<noteq> [] \<and> last idx < length ps
                           then arr_at (ps ! last idx) (butlast idx) else 0)\<rparr>"
proof (cases ps)
  case Nil
  then show ?thesis using assms(1) by simp
next
  case (Cons p qs)
  have "arr_shape p = sh" and "list_all (\<lambda>q. arr_shape q = arr_shape p) qs"
    using assms(2) Cons by simp_all
  then show ?thesis
    unfolding Cons by (simp add: np_stack_last_def)
qed

lemma shape_4d:
  "ndim h = 4 \<Longrightarrow> shape h = [series_shape (data h) ! 0, series_shape (data h) ! 3,
      series_shape (data h) ! 2, series_shape (data h) ! 1]"
  by (simp add: shape_def Let_def)

lemma get_in_bound:
  assumes "shape h = N # rest" "- int N < i" "i \<le> int N"
  shows "get h i = (if ndim h = 4 then stack_planes h (i * int (shape h ! 3)) (shape h ! 3)
                    else decode h i)"
  using assms by (simp add: get_def stack_planes_def Let_def)

text \<open>
  Claim C5. Let \<open>i\<close> pass the bound check of \<^verbatim>\<open>get\<close>. When the series is not
  four-dimensional, \<^verbatim>\<open>get(i)\<close> decodes plane \<open>i\<close>. When it is, the number of channels
  is \<open>shape[3]\<close> (the second entry of the series' own shape), and \<^verbatim>\<open>get(i)\<close> is the
  stack, along a new last axis, of that many consecutive planes from plane
  \<open>i * shape[3]\<close> on: if these planes decode to \<open>p 0, p 1, \<dots>\<close> of one shape
  \<open>sh\<close>, the frame has shape \<open>sh @ [shape[3]]\<close> and its element \<open>idx @ [c]\<close> is
  element \<open>idx\<close> of \<open>p c\<close>.
\<close>

theorem get_stacks_planes:
  assumes "shape h = N # rest" and "- int N < i" and "i \<le> int N"
  shows "(ndim h \<noteq> 4 \<longrightarrow> get h i = decode h i) \<and>
         (ndim h = 4 \<longrightarrow>
            shape h ! 3 = series_shape (data h) ! 1 \<and>
            get h i = stack_planes h (i * int (shape h ! 3)) (shape h ! 3) \<and>
            (0 < shape h ! 3 \<and>
             (\<forall>c < shape h ! 3. asarray (data h) (i * int (shape h ! 3) + int c) = Inr (p c)
                 \<and> arr_shape (p c) = sh) \<longrightarrow>
             (\<exists>frame. get h i = Inr frame \<and> arr_shape frame = sh @ [shape h ! 3] \<and>
                (\<forall>c < shape h ! 3. \<forall>idx. arr_at frame (idx @ [c]) = arr_at (p c) idx))))"
proof (intro conjI impI)
  assume "ndim h \<noteq> 4"
  then show "get h i = decode h i"
    using get_in_bound [OF assms] by simp
next
  assume "ndim h = 4"
  then show "shape h ! 3 = series_shape (data h) ! 1"
    by (simp add: shape_4d)
next
  assume "ndim h = 4"
  then show "get h i = stack_planes h (i * int (shape h ! 3)) (shape h ! 3)"
    using get_in_bound [OF assms] by simp
next
  let ?C = "shape h ! 3"
  assume four: "ndim h = 4"
  assume pl: "0 < ?C \<and> (\<forall>c < ?C. asarray (data h) (i * int ?C + int c) = Inr (p c)
                 \<and> arr_shape (p c) = sh)"
  have dec: "decode h (i * int ?C + int c) = Inr (p c)" if "c < ?C" for c
    using pl that by (simp add: decode_def)
  have seq: "sequence (map (\<lambda>c. decode h (i * int ?C + int c)) [0..<?C]) = Inr (map p [0..<?C])"
    by (rule sequence_map_Inr) (rule dec)
  have ne: "map p [0..<?C] \<noteq> []" using pl by simp
  have same: "list_all (\<lambda>q. arr_shape q = sh) (map p [0..<?C])"
    using pl by (simp add: list_all_iff)
  have "get h i = np_stack_last (map p [0..<?C])"
    using get_in_bound [OF assms] four by (simp add: stack_planes_def seq)
  then have g: "get h i = Inr \<lparr>arr_shape = sh @ [?C],
          arr_at = (\<lambda>idx. if idx \<noteq> [] \<and> last idx < ?C
                           then arr_at (map p [0..<?C] ! last idx) (butlast idx) else 0)\<rparr>"
    using np_stack_last_same_shape [OF ne same] by simp
  show "\<exists>frame. get h i = Inr frame \<and> arr_shape frame = sh @ [?C] \<and>
                (\<forall>c < ?C. \<forall>idx. arr_at frame (idx @ [c]) = arr_at (p c) idx)"
    by (rule exI, intro conjI, rule g) simp_all
qed

theorem get_stacks_planes_witness:
  "\<exists>frame.
     get \<lparr>filename = ''b.tif'', channel = 1, meta = example_meta, data = series4, slices = 0\<rparr> 1
       = Inr frame \<and>
     arr_shape frame = [4, 3, 2] \<and> arr_at frame [0, 0, 0] = 2 \<and> arr_at frame [0, 0, 1] = 3"
proof -
  let ?h = "\<lparr>filename = ''b.tif'', channel = 1, meta = example_meta, data = series4, slices = 0\<rparr>"
  have nd: "ndim ?h = 4"
    by (simp add: ndim_def series4_def)
  have s: "shape ?h = 5 # [3, 4, 2]"
    by (simp add: shape_def ndim_def series4_def)
  have c: "shape ?h ! 3 = 2"
    by (simp add: s)
  have lo: "- int 5 < 1" and hi: "(1::int) \<le> int 5"
    by simp_all
  have pl2: "0 < (2::nat) \<and>
      (\<forall>c < (2::nat). asarray (data ?h) (1 * int 2 + int c)
           = Inr (const_array [4, 3] (2 + int c))
         \<and> arr_shape (const_array [4, 3] (2 + int c)) = [4, 3])"
    by (simp add: series4_def frame_decoder_def const_array_def)
  have pl: "0 < shape ?h ! 3 \<and>
      (\<forall>c < shape ?h ! 3. asarray (data ?h) (1 * int (shape ?h ! 3) + int c)
           = Inr (const_array [4, 3] (2 + int c))
         \<and> arr_shape (const_array [4, 3] (2 + int c)) = [4, 3])"
    unfolding c by (rule pl2)
  from get_stacks_planes [OF s lo hi, of "\<lambda>c. const_array [4, 3] (2 + int c)" "[4, 3]"] nd pl
  obtain frame where f: "get ?h 1 = Inr frame" "arr_shape frame = [4, 3] @ [shape ?h ! 3]"
      "\<forall>c < shape ?h ! 3. \<forall>idx. arr_at frame (idx @ [c]) = arr_at (const_array [4, 3] (2 + int c)) idx"
    by blast
  have e0: "arr_at frame ([0, 0] @ [0]) = arr_at (const_array [4, 3] (2 + int 0)) [0, 0]"
    by (rule f(3) [rule_format]) (simp add: c)
  have e1: "arr_at frame ([0, 0] @ [1]) = arr_at (const_array [4, 3] (2 + int 1)) [0, 0]"
    by (rule f(3) [rule_format]) (simp add: c)
  have "arr_at frame [0, 0, 0] = 2" "arr_at frame [0, 0, 1] = 3"
    using e0 e1 by (simp_all add: const_array_def)
  then show ?thesis
    using f(1) f(2) c by simp
qed

section \<open>The bound check of get\<close>

lemma np_stack_last_not_index_error: "np_stack_last ps \<noteq> Inl IndexError"
  by (simp add: np_stack_last_def split: list.splits)

lemma get_out_of_bound:
  assumes "shape h = N # rest" and "i \<le> - int N \<or> int N < i"
  shows "get h i = Inl IndexError"
  using assms by (auto simp: get_def)

lemma decode_planes_4d:
  "ndim h = 4 \<Longrightarrow>
   decode_planes h i =
     sequence (map (\<lambda>c. decode h (i * int (shape h ! 3) + int c)) [0..<shape h ! 3])"
  by (simp add: decode_planes_def requested_planes_def comp_def)

lemma decode_planes_single:
  "ndim h \<noteq> 4 \<Longrightarrow>
   decode_planes h i = (case decode h i of Inl e \<Rightarrow> Inl e | Inr a \<Rightarrow> Inr [a])"
  by (cases "decode h i") (simp_all add: decode_planes_def requested_planes_def)

lemma get_in_bound_index_error:
  assumes "shape h = N # rest" and "- int N < i" and "i \<le> int N"
  shows "(get h i = Inl IndexError) = (decode_planes h i = Inl IndexError)"
proof (cases "ndim h = 4")
  case True
  have "get h i = (case decode_planes h i of Inl e \<Rightarrow> Inl e | Inr ps \<Rightarrow> np_stack_last ps)"
    using get_in_bound [OF assms] True
    by (simp add: stack_planes_def decode_planes_4d)
  then show ?thesis
    using np_stack_last_not_index_error by (cases "decode_planes h i") simp_all
next
  case False
  have "get h i = decode h i"
    using get_in_bound [OF assms] False by simp
  then show ?thesis
    by (cases "decode h i") (simp_all add: decode_planes_single [OF False])
qed

text \<open>
  With a decoder over exactly \<open>N\<close> planes, \<^verbatim>\<open>get\<close> on a series that is not
  four-dimensional raises IndexError exactly for \<open>i \<le> - N\<close> and for \<open>i \<ge> N\<close>.
\<close>

lemma get_index_error_frames:
  assumes "shape h = N # rest" and "ndim h \<noteq> 4" and "asarray (data h) = frame_decoder N sh"
  shows "(get h i = Inl IndexError) = (i \<le> - int N \<or> int N \<le> i)"
proof (cases "- int N < i \<and> i \<le> int N")
  case False
  then have "get h i = Inl IndexError"
    using get_out_of_bound [OF assms(1), of i] by auto
  then show ?thesis using False by auto
next
  case True
  then have "get h i = frame_decoder N sh i"
    using get_in_bound [OF assms(1), of i] assms(2,3) by (simp add: decode_def)
  then show ?thesis
    using True by (auto simp: frame_decoder_def)
qed

text \<open>
  Claim C4, amended. With \<open>N = shape[0]\<close>: \<^verbatim>\<open>get(i)\<close> raises IndexError whenever
  \<open>i \<le> - N\<close> or \<open>i > N\<close>, by its own check. For \<open>- N < i \<le> N\<close> it raises IndexError
  exactly when the decoder raises IndexError for a plane that \<^verbatim>\<open>get\<close> asks for, as
  it does for \<open>i = N\<close>, a plane past the last one.
\<close>

theorem get_index_error:
  assumes "shape h = N # rest"
  shows "(i \<le> - int N \<or> int N < i \<longrightarrow> get h i = Inl IndexError) \<and>
         (- int N < i \<and> i \<le> int N \<longrightarrow>
            (get h i = Inl IndexError) = (decode_planes h i = Inl IndexError))"
  using get_out_of_bound [OF assms, of i] get_in_bound_index_error [OF assms, of i]
  by blast

lemma shape_example: "shape fresh = 10 # [20, 30]"
  by (simp add: shape_def ndim_def fresh_def series3_def)

lemma decode_planes_fresh: "decode_planes fresh i = sequence [frame_decoder 10 [20, 30] i]"
  by (simp add: decode_planes_def requested_planes_def decode_def ndim_def fresh_def series3_def)

text \<open>
  The claim as first stated has no IndexError for \<open>- N < i \<le> N\<close>. On a file of 10
  frames, \<^verbatim>\<open>get(10)\<close> passes the check and the decoder raises IndexError for plane 10.
\<close>

theorem get_index_error_counterexample:
  "shape fresh = [10, 20, 30] \<and> - 10 < (10::int) \<and> (10::int) \<le> 10 \<and>
   get fresh 10 = Inl IndexError"
  by (simp add: get_def shape_def ndim_def decode_def fresh_def series3_def frame_decoder_def)

theorem get_index_error_witness:
  "get fresh 11 = Inl IndexError \<and> get fresh (- 10) = Inl IndexError \<and>
   get fresh 10 = Inl IndexError \<and> get fresh 3 \<noteq> Inl IndexError"
proof -
  have out: "get fresh 11 = Inl IndexError" "get fresh (- 10) = Inl IndexError"
    using get_index_error [OF shape_example, of 11] get_index_error [OF shape_example, of "- 10"]
    by simp_all
  have "(get fresh 10 = Inl IndexError) = (decode_planes fresh 10 = Inl IndexError)"
    using get_index_error [OF shape_example, of 10] by simp
  then have ten: "get fresh 10 = Inl IndexError"
    by (simp add: decode_planes_fresh frame_decoder_def)
  have "(get fresh 3 = Inl IndexError) = (decode_planes fresh 3 = Inl IndexError)"
    using get_index_error [OF shape_example, of 3] by simp
  then have three: "get fresh 3 \<noteq> Inl IndexError"
    by (simp add: decode_planes_fresh frame_decoder_def)
  show ?thesis using out ten three by simp
qed

section \<open>Construction and the heap\<close>


lemma init_Inr:
  assumes "init fs f ch hp = (Inr h, hp')"
  shows "slices h = length hp" and "hp' = hp @ [replicate (ndim h) full_slice]"
    and "filename h = f" and "get_data fs f = Inr (data h)"
  using assms
  by (auto simp: init_def alloc_def ndim_def split: sum.splits)

lemma init_Inl: "init fs f ch hp = (Inl e, hp') \<Longrightarrow> hp' = hp"
  by (auto simp: init_def alloc_def split: sum.splits)

lemma init_opened:
  assumes "get_data fs f = Inr d"
  shows "\<exists>h. init fs f ch hp = (Inr h, hp @ [replicate (length (series_shape d)) full_slice])
           \<and> data h = d \<and> slices h = length hp \<and> filename h = f"
proof -
  obtain tf where tf: "fs f = Some tf"
    using assms by (auto simp: get_data_def split: option.splits)
  then have "Metadata fs f = Inr \<lparr>meta_filename = f, exif = file_exif tf\<rparr>"
    by (simp add: Metadata_def read_exif_def)
  then show ?thesis
    using assms by (simp add: init_def alloc_def)
qed

lemma set_slices_heap:
  "set_slices r i ss hp = (res, hp') \<Longrightarrow>
     length hp' = length hp \<and> (\<forall>a. a \<noteq> r \<longrightarrow> hp' ! a = hp ! a)
       \<and> length (hp' ! r) = length (hp ! r)"
proof (induction ss arbitrary: i hp)
  case Nil
  then show ?case by simp
next
  case (Cons s ss)
  show ?case
  proof (cases "s \<noteq> full_slice \<and> i < length (hp ! r)")
    case True
    let ?hp1 = "hp[r := (hp ! r)[i := s]]"
    have "set_slices r (Suc i) ss ?hp1 = (res, hp')"
      using Cons.prems True by (simp add: list_assign_def)
    then have ih: "length hp' = length ?hp1 \<and> (\<forall>a. a \<noteq> r \<longrightarrow> hp' ! a = ?hp1 ! a)
       \<and> length (hp' ! r) = length (?hp1 ! r)"
      by (rule Cons.IH)
    have "length (?hp1 ! r) = length (hp ! r)"
      by (cases "r < length hp") (simp_all add: list_update_beyond)
    then show ?thesis using ih by simp
  next
    case False
    show ?thesis
    proof (cases "s = full_slice")
      case True
      then have "set_slices r (Suc i) ss hp = (res, hp')"
        using Cons.prems by simp
      then show ?thesis by (rule Cons.IH)
    next
      case ne: False
      then have "hp' = hp"
        using Cons.prems False by (simp add: list_assign_def)
      then show ?thesis by simp
    qed
  qed
qed

lemma set_slices_Inr_nth:
  "r < length hp \<Longrightarrow> set_slices r i ss hp = (Inr u, hp') \<Longrightarrow> k < length (hp ! r) \<Longrightarrow>
     (hp' ! r) ! k =
       (if i \<le> k \<and> k - i < length ss \<and> ss ! (k - i) \<noteq> full_slice
        then ss ! (k - i) else (hp ! r) ! k)"
proof (induction ss arbitrary: i hp)
  case Nil
  then show ?case by simp
next
  case (Cons s ss)
  show ?case
  proof (cases "s = full_slice")
    case True
    then have "set_slices r (Suc i) ss hp = (Inr u, hp')"
      using Cons.prems(2) by simp
    then have ih: "(hp' ! r) ! k =
       (if Suc i \<le> k \<and> k - Suc i < length ss \<and> ss ! (k - Suc i) \<noteq> full_slice
        then ss ! (k - Suc i) else (hp ! r) ! k)"
      using Cons.IH [OF Cons.prems(1) _ Cons.prems(3)] by simp
    show ?thesis
    proof (cases "Suc i \<le> k")
      case le: True
      then have "k - i = Suc (k - Suc i)" by simp
      then show ?thesis using ih le by simp
    next
      case False
      then have "k < i \<or> k = i" by auto
      then show ?thesis using ih False True by auto
    qed
  next
    case False
    then have lt: "i < length (hp ! r)"
      using Cons.prems(2) by (auto simp: list_assign_def split: if_splits)
    let ?hp1 = "hp[r := (hp ! r)[i := s]]"
    have run: "set_slices r (Suc i) ss ?hp1 = (Inr u, hp')"
      using Cons.prems(2) False lt by (simp add: list_assign_def)
    have r1: "r < length ?hp1" using Cons.prems(1) by simp
    have cell: "?hp1 ! r = (hp ! r)[i := s]" using Cons.prems(1) by simp
    have k1: "k < length (?hp1 ! r)" using Cons.prems(3) cell by simp
    have ih: "(hp' ! r) ! k =
       (if Suc i \<le> k \<and> k - Suc i < length ss \<and> ss ! (k - Suc i) \<noteq> full_slice
        then ss ! (k - Suc i) else (?hp1 ! r) ! k)"
      by (rule Cons.IH [OF r1 run k1])
    show ?thesis
    proof (cases "Suc i \<le> k")
      case le: True
      then have "k - i = Suc (k - Suc i)" and "k \<noteq> i" by simp_all
      then show ?thesis using ih le cell by simp
    next
      case nle: False
      show ?thesis
      proof (cases "k = i")
        case True
        then show ?thesis using ih nle cell lt False by simp
      next
        case ne: False
        then have "k < i" using nle by simp
        then show ?thesis using ih nle cell ne by simp
      qed
    qed
  qed
qed

lemma set_slices_succeeds:
  "r < length hp \<Longrightarrow> (\<forall>j < length ss. ss ! j \<noteq> full_slice \<longrightarrow> i + j < length (hp ! r)) \<Longrightarrow>
     \<exists>hp'. set_slices r i ss hp = (Inr (), hp')"
proof (induction ss arbitrary: i hp)
  case Nil
  then show ?case by simp
next
  case (Cons s ss)
  have tl: "\<forall>j < length ss. ss ! j \<noteq> full_slice \<longrightarrow> Suc i + j < length (hp ! r)"
    using Cons.prems(2) by fastforce
  show ?case
  proof (cases "s = full_slice")
    case True
    then show ?thesis
      using Cons.IH [OF Cons.prems(1) tl] by simp
  next
    case False
    then have lt: "i < length (hp ! r)"
      using Cons.prems(2) by fastforce
    let ?hp1 = "hp[r := (hp ! r)[i := s]]"
    have r1: "r < length ?hp1" using Cons.prems(1) by simp
    have "?hp1 ! r = (hp ! r)[i := s]" using Cons.prems(1) by simp
    then have tl1: "\<forall>j < length ss. ss ! j \<noteq> full_slice \<longrightarrow> Suc i + j < length (?hp1 ! r)"
      using tl by simp
    show ?thesis
      using Cons.IH [OF r1 tl1] False lt by (simp add: list_assign_def)
  qed
qed

lemma set_slices_fails:
  "r < length hp \<Longrightarrow> j < length ss \<Longrightarrow> ss ! j \<noteq> full_slice \<Longrightarrow> length (hp ! r) \<le> i + j \<Longrightarrow>
     \<exists>hp'. set_slices r i ss hp = (Inl IndexError, hp')"
proof (induction ss arbitrary: i j hp)
  case Nil
  then show ?case by simp
next
  case (Cons s ss)
  let ?hp1 = "hp[r := (hp ! r)[i := s]]"
  have r1: "r < length ?hp1" using Cons.prems(1) by simp
  have cell: "length (?hp1 ! r) = length (hp ! r)" using Cons.prems(1) by simp
  show ?case
  proof (cases j)
    case 0
    then have "s \<noteq> full_slice" "length (hp ! r) \<le> i"
      using Cons.prems by simp_all
    then show ?thesis by (simp add: list_assign_def)
  next
    case (Suc j')
    then have p: "j' < length ss" "ss ! j' \<noteq> full_slice" "length (hp ! r) \<le> Suc i + j'"
      using Cons.prems by simp_all
    have a: "\<exists>hp'. set_slices r (Suc i) ss hp = (Inl IndexError, hp')"
      by (rule Cons.IH [OF Cons.prems(1) p])
    have b: "\<exists>hp'. set_slices r (Suc i) ss ?hp1 = (Inl IndexError, hp')"
      by (rule Cons.IH [OF r1 p(1) p(2)]) (use p(3) cell in simp)
    show ?thesis
      using a b by (simp add: list_assign_def)
  qed
qed

section \<open>Indexing with a tuple of slices\<close>


lemma copy_Inr:
  assumes "copy fs h hp = (Inr obj, hp1)"
  shows "slices obj = length hp" and "hp1 = hp @ [replicate (ndim obj) full_slice]"
    and "filename obj = filename h" and "get_data fs (filename h) = Inr (data obj)"
  using assms init_Inr [of fs "filename h" "Some (channel h)" hp obj hp1]
  by (simp_all add: copy_def)

lemma copy_Inl: "copy fs h hp = (Inl e, hp1) \<Longrightarrow> hp1 = hp"
  by (simp add: copy_def init_Inl)

lemma copy_opened:
  assumes "opened fs h"
  shows "\<exists>obj. copy fs h hp = (Inr obj, hp @ [replicate (ndim h) full_slice])
           \<and> data obj = data h \<and> slices obj = length hp \<and> filename obj = filename h"
  using init_opened [of fs "filename h" "data h" "Some (channel h)" hp] assms
  by (simp add: copy_def opened_def ndim_def)

lemma slices_of_append: "slices h < length hp \<Longrightarrow> slices_of (hp @ xs) h = slices_of hp h"
  by (simp add: slices_of_def nth_append)

lemma getitem_tuple_Inr:
  assumes "getitem fs h (ITuple val) hp = (Inr (Handle h'), hp')"
  obtains obj u where "copy fs h hp = (Inr obj, hp @ [replicate (ndim obj) full_slice])"
    and "h' = obj\<lparr>slices := Suc (length hp)\<rparr>"
    and "set_slices (Suc (length hp)) 0 val
           (hp @ [replicate (ndim obj) full_slice]
               @ [slices_of (hp @ [replicate (ndim obj) full_slice]) h]) = (Inr u, hp')"
proof -
  obtain r1 hp1 where c: "copy fs h hp = (r1, hp1)" by (cases "copy fs h hp")
  from assms c obtain obj where r1: "r1 = Inr obj"
    by (cases r1) auto
  have hp1: "hp1 = hp @ [replicate (ndim obj) full_slice]"
    using copy_Inr(2) c r1 by simp
  obtain r3 hp3 where s: "set_slices (length hp1) 0 val (hp1 @ [slices_of hp1 h]) = (r3, hp3)"
    by (cases "set_slices (length hp1) 0 val (hp1 @ [slices_of hp1 h])")
  from assms c r1 s obtain u where r3: "r3 = Inr u" and e: "h' = obj\<lparr>slices := length hp1\<rparr>" "hp' = hp3"
    by (cases r3) (auto simp: alloc_def Let_def)
  show ?thesis
    using that [of obj u] c r1 hp1 s r3 e by simp
qed

lemma getitem_tuple_slices:
  assumes lt: "slices h < length hp"
    and g: "getitem fs h (ITuple val) hp = (Inr (Handle h'), hp')"
  shows "slices_of hp' h' = replace_non_default (slices_of hp h) val"
    and "slices_of hp' h = slices_of hp h"
proof -
  from g obtain obj u where c: "copy fs h hp = (Inr obj, hp @ [replicate (ndim obj) full_slice])"
    and h': "h' = obj\<lparr>slices := Suc (length hp)\<rparr>"
    and s: "set_slices (Suc (length hp)) 0 val
           (hp @ [replicate (ndim obj) full_slice]
               @ [slices_of (hp @ [replicate (ndim obj) full_slice]) h]) = (Inr u, hp')"
    by (rule getitem_tuple_Inr)
  let ?old = "slices_of hp h"
  let ?hp2 = "hp @ [replicate (ndim obj) full_slice] @ [?old]"
  let ?r = "Suc (length hp)"
  have old: "slices_of (hp @ [replicate (ndim obj) full_slice]) h = ?old"
    using lt by (rule slices_of_append)
  have s2: "set_slices ?r 0 val ?hp2 = (Inr u, hp')"
    using s old by simp
  have r: "?r < length ?hp2" by simp
  have cell: "?hp2 ! ?r = ?old"
    by (simp add: nth_append)
  have heap: "length hp' = length ?hp2 \<and> (\<forall>a. a \<noteq> ?r \<longrightarrow> hp' ! a = ?hp2 ! a)
       \<and> length (hp' ! ?r) = length (?hp2 ! ?r)"
    using s2 by (rule set_slices_heap)
  have nth: "(hp' ! ?r) ! k =
       (if k < length val \<and> val ! k \<noteq> full_slice then val ! k else ?old ! k)"
    if "k < length ?old" for k
    using set_slices_Inr_nth [OF r s2, of k] that cell by simp
  have "hp' ! ?r = replace_non_default ?old val"
  proof (rule nth_equalityI)
    show "length (hp' ! ?r) = length (replace_non_default ?old val)"
      using heap cell by (simp add: replace_non_default_def)
  next
    fix k assume "k < length (hp' ! ?r)"
    then have k: "k < length ?old" using heap cell by simp
    then show "(hp' ! ?r) ! k = replace_non_default ?old val ! k"
      using nth [OF k] by (simp add: replace_non_default_def)
  qed
  then show "slices_of hp' h' = replace_non_default (slices_of hp h) val"
    by (simp add: slices_of_def h')
  have "slices h \<noteq> ?r" using lt by simp
  then have "hp' ! slices h = ?hp2 ! slices h" using heap by blast
  also have "\<dots> = hp ! slices h" using lt by (simp add: nth_append)
  finally show "slices_of hp' h = slices_of hp h" by (simp add: slices_of_def)
qed

lemma getitem_tuple_returns:
  assumes lt: "slices h < length hp" and op: "opened fs h"
    and pos: "\<forall>j < length val. val ! j \<noteq> full_slice \<longrightarrow> j < length (slices_of hp h)"
  shows "\<exists>obj hp2. getitem fs h (ITuple val) hp = (Inr (Handle obj), hp2)"
proof -
  obtain obj where c: "copy fs h hp = (Inr obj, hp @ [replicate (ndim h) full_slice])"
    using copy_opened [OF op, of hp] by blast
  let ?old = "slices_of hp h"
  let ?hp1 = "hp @ [replicate (ndim h) full_slice]"
  let ?hp2 = "?hp1 @ [?old]"
  let ?r = "Suc (length hp)"
  have old: "slices_of ?hp1 h = ?old"
    using lt by (rule slices_of_append)
  have r: "?r < length ?hp2" by simp
  have cell: "?hp2 ! ?r = ?old" by (simp add: nth_append)
  have ok: "\<forall>j < length val. val ! j \<noteq> full_slice \<longrightarrow> 0 + j < length (?hp2 ! ?r)"
    using pos cell by simp
  obtain hp3 where s: "set_slices ?r 0 val ?hp2 = (Inr (), hp3)"
    using set_slices_succeeds [OF r ok] by blast
  have "getitem fs h (ITuple val) hp = (Inr (Handle (obj\<lparr>slices := ?r\<rparr>)), hp3)"
    using c s old by (simp add: alloc_def)
  then show ?thesis by blast
qed

text \<open>
  Claim C3. Indexing a handle with a tuple of slices: the handle that is returned has
  the original handle's slices with exactly the positions replaced where the tuple
  holds an entry other than the full range; every other position keeps the original
  handle's slice, and the original handle's list is as it was. A handle is returned
  whenever the file can be opened again and every such entry has a position below the
  number of dimensions.
\<close>

theorem getitem_tuple_replaces:
  assumes "slices h < length hp"
  shows "(getitem fs h (ITuple val) hp = (Inr (Handle h'), hp') \<longrightarrow>
            slices_of hp' h' = replace_non_default (slices_of hp h) val \<and>
            slices_of hp' h = slices_of hp h) \<and>
         (opened fs h \<and>
          (\<forall>j < length val. val ! j \<noteq> full_slice \<longrightarrow> j < length (slices_of hp h)) \<longrightarrow>
            (\<exists>obj hp2. getitem fs h (ITuple val) hp = (Inr (Handle obj), hp2)))"
  using getitem_tuple_slices [OF assms] getitem_tuple_returns [OF assms]
  by blast

lemma range_slice_not_full: "range_slice a b \<noteq> full_slice"
  by (simp add: range_slice_def full_slice_def)

lemma opened_fresh: "opened example_fs fresh"
  by (simp add: opened_def fresh_def get_data_def example_fs_def)

lemma opened_narrowed: "opened example_fs narrowed"
  by (simp add: opened_def narrowed_def fresh_def get_data_def example_fs_def)

theorem getitem_tuple_replaces_witness:
  "\<exists>obj hp2.
     getitem example_fs narrowed (ITuple [range_slice 2 5, full_slice]) narrowed_heap
       = (Inr (Handle obj), hp2) \<and>
     slices_of hp2 obj = [range_slice 2 5, full_slice, range_slice 3 7] \<and>
     slices_of hp2 narrowed = [full_slice, full_slice, range_slice 3 7]"
proof -
  let ?val = "[range_slice 2 5, full_slice]"
  have r: "slices narrowed < length narrowed_heap"
    by (simp add: narrowed_def narrowed_heap_def)
  have old: "slices_of narrowed_heap narrowed = [full_slice, full_slice, range_slice 3 7]"
    by (simp add: slices_of_def narrowed_def narrowed_heap_def)
  have ok: "opened example_fs narrowed \<and>
      (\<forall>j < length ?val. ?val ! j \<noteq> full_slice \<longrightarrow> j < length (slices_of narrowed_heap narrowed))"
    by (simp add: opened_narrowed old)
  obtain obj hp2 where g: "getitem example_fs narrowed (ITuple ?val) narrowed_heap = (Inr (Handle obj), hp2)"
    using getitem_tuple_replaces [OF r, of example_fs ?val] ok by blast
  have "slices_of hp2 obj = replace_non_default (slices_of narrowed_heap narrowed) ?val
      \<and> slices_of hp2 narrowed = slices_of narrowed_heap narrowed"
    using getitem_tuple_replaces [OF r, of example_fs ?val obj hp2] g by blast
  moreover have "replace_non_default [full_slice, full_slice, range_slice 3 7] ?val
      = [range_slice 2 5, full_slice, range_slice 3 7]"
    by (simp add: replace_non_default_def range_slice_not_full upt_rec nth_Cons')
  ultimately show ?thesis
    using g old by auto
qed

section \<open>Indexing twice and indexing once\<close>


lemma init_example:
  "init example_fs ''a.tif'' (Some 1) hp =
     (Inr (fresh\<lparr>slices := length hp\<rparr>), hp @ [[full_slice, full_slice, full_slice]])"
  by (simp add: init_def Metadata_def read_exif_def get_data_def example_fs_def alloc_def
      fresh_def series3_def numeral_3_eq_3)

lemma fresh_fields:
  "filename (fresh\<lparr>slices := r\<rparr>) = ''a.tif''" "channel (fresh\<lparr>slices := r\<rparr>) = 1"
  "filename fresh = ''a.tif''" "channel fresh = 1" "slices fresh = 0"
  by (simp_all add: fresh_def)

lemma copy_example:
  "filename h = ''a.tif'' \<Longrightarrow> channel h = 1 \<Longrightarrow>
   copy example_fs h hp =
     (Inr (fresh\<lparr>slices := length hp\<rparr>), hp @ [[full_slice, full_slice, full_slice]])"
  by (simp add: copy_def init_example)

lemma init_fresh: "init example_fs ''a.tif'' None [] = (Inr fresh, [[full_slice, full_slice, full_slice]])"
  by (simp add: init_def Metadata_def read_exif_def get_data_def example_fs_def alloc_def
      fresh_def series3_def numeral_3_eq_3)

lemma getitem_fresh_narrowed:
  "getitem example_fs fresh (ITuple [full_slice, full_slice, range_slice 3 7])
       [[full_slice, full_slice, full_slice]] = (Inr (Handle narrowed), narrowed_heap)"
  by (simp add: copy_example fresh_fields alloc_def slices_of_def list_assign_def
      range_slice_not_full narrowed_def narrowed_heap_def)

lemma getitem_narrowed_slice:
  "getitem example_fs narrowed (ISlice (range_slice 2 5)) narrowed_heap =
     (Inr (Handle (fresh\<lparr>slices := 3\<rparr>)),
      narrowed_heap @ [[range_slice 2 5, full_slice, full_slice]])"
  by (simp add: copy_example fresh_fields narrowed_def list_assign_def narrowed_heap_def)

lemma getitem_composed:
  "getitem example_fs (fresh\<lparr>slices := 3\<rparr>) (ITuple [full_slice, range_slice 0 10])
       (narrowed_heap @ [[range_slice 2 5, full_slice, full_slice]]) =
     (Inr (Handle (fresh\<lparr>slices := 5\<rparr>)), composed_heap)"
  by (simp add: copy_example fresh_fields alloc_def slices_of_def list_assign_def
      range_slice_not_full narrowed_heap_def composed_heap_def)

lemma getitem_direct:
  "getitem example_fs narrowed (ITuple [range_slice 2 5, range_slice 0 10]) narrowed_heap =
     (Inr (Handle (fresh\<lparr>slices := 4\<rparr>)), direct_heap)"
  by (simp add: copy_example fresh_fields alloc_def slices_of_def list_assign_def
      range_slice_not_full narrowed_def narrowed_heap_def direct_heap_def)

lemma shape_fresh: "shape (fresh\<lparr>slices := r\<rparr>) = [10, 20, 30]"
  by (simp add: shape_def ndim_def fresh_def series3_def)

lemma slice_length_full: "0 \<le> n \<Longrightarrow> slice_length full_slice n = Inr n"
  by (simp add: slice_length_def slice_indices_def step_of_def full_slice_def)

lemma slice_length_range:
  "0 \<le> a \<Longrightarrow> a \<le> b \<Longrightarrow> b \<le> n \<Longrightarrow> slice_length (range_slice a b) n = Inr (b - a)"
  by (simp add: slice_length_def slice_indices_def step_of_def range_slice_def clamp_index_def)

lemma slice_shape_composed: "slice_shape composed_heap (fresh\<lparr>slices := 5\<rparr>) = Inr [3, 10, 30]"
  by (simp add: slice_shape_def slices_of_def shape_fresh composed_heap_def narrowed_heap_def
      slice_length_full slice_length_range)

lemma slice_shape_direct: "slice_shape direct_heap (fresh\<lparr>slices := 4\<rparr>) = Inr [3, 10, 4]"
  by (simp add: slice_shape_def slices_of_def shape_fresh direct_heap_def narrowed_heap_def
      slice_length_full slice_length_range)

lemma length_py_range_unit: "length (py_range a b 1) = nat (b - a)"
proof -
  have "int (length (py_range a b 1)) = max 0 (b - a)"
    using length_py_range_pos [of 1 a b] by simp
  then show ?thesis by linarith
qed

lemma py_range_2_5: "py_range 2 5 1 = [2, 3, 4]"
  by (simp add: py_range_step_pos py_range_stop_pos)

lemma slice_indices_full: "0 \<le> n \<Longrightarrow> slice_indices full_slice n = Inr (0, n, 1)"
  by (simp add: slice_indices_def step_of_def full_slice_def)

lemma slice_indices_range:
  "0 \<le> a \<Longrightarrow> a \<le> b \<Longrightarrow> b \<le> n \<Longrightarrow> slice_indices (range_slice a b) n = Inr (a, b, 1)"
  by (simp add: slice_indices_def step_of_def range_slice_def clamp_index_def)

lemma get_fresh:
  "0 \<le> i \<Longrightarrow> i < 10 \<Longrightarrow> get (fresh\<lparr>slices := r\<rparr>) i = Inr (const_array [20, 30] i)"
  by (simp add: get_def shape_fresh)
    (simp add: ndim_def decode_def fresh_def series3_def frame_decoder_def)

lemma frames_composed:
  "map arr_shape (fst (iter composed_heap (fresh\<lparr>slices := 5\<rparr>))) = [[10, 30], [10, 30], [10, 30]]"
  by (simp add: iter_def slices_of_def composed_heap_def narrowed_heap_def shape_fresh
      slice_indices_range slice_indices_full py_range_2_5 get_fresh np_getitem_def
      const_array_def length_py_range_unit)

lemma frames_direct:
  "map arr_shape (fst (iter direct_heap (fresh\<lparr>slices := 4\<rparr>))) = [[10, 4], [10, 4], [10, 4]]"
  by (simp add: iter_def slices_of_def direct_heap_def narrowed_heap_def shape_fresh
      slice_indices_range slice_indices_full py_range_2_5 get_fresh np_getitem_def
      const_array_def length_py_range_unit)

text \<open>
  Claim C2. \<^verbatim>\<open>handle[2:5][:, 0:10]\<close> is claimed to leave the handle's slices as they
  were and to equal \<^verbatim>\<open>handle[2:5, 0:10]\<close> in slice shape and in every frame, for every
  handle. The first holds. The second fails for a handle narrowed before in a later
  dimension: the slice branch of \<^verbatim>\<open>__getitem__\<close> starts from a fresh copy and drops
  that narrowing, the tuple branch copies the handle's slices and keeps it. For the
  handle \<^verbatim>\<open>imread('a.tif', lazy=True)[:, :, 3:7]\<close> on a file of shape (10, 20, 30), the
  composed indexing has slice shape \<open>[3, 10, 30]\<close> and frames of shape (10, 30), the
  direct one \<open>[3, 10, 4]\<close> and frames of shape (10, 4).
\<close>

theorem composed_slicing_differs:
  "init example_fs ''a.tif'' None [] = (Inr fresh, [[full_slice, full_slice, full_slice]]) \<and>
   getitem example_fs fresh (ITuple [full_slice, full_slice, range_slice 3 7])
       [[full_slice, full_slice, full_slice]] = (Inr (Handle narrowed), narrowed_heap) \<and>
   getitem example_fs narrowed (ISlice (range_slice 2 5)) narrowed_heap =
     (Inr (Handle (fresh\<lparr>slices := 3\<rparr>)),
      narrowed_heap @ [[range_slice 2 5, full_slice, full_slice]]) \<and>
   getitem example_fs (fresh\<lparr>slices := 3\<rparr>) (ITuple [full_slice, range_slice 0 10])
       (narrowed_heap @ [[range_slice 2 5, full_slice, full_slice]]) =
     (Inr (Handle (fresh\<lparr>slices := 5\<rparr>)), composed_heap) \<and>
   getitem example_fs narrowed (ITuple [range_slice 2 5, range_slice 0 10]) narrowed_heap =
     (Inr (Handle (fresh\<lparr>slices := 4\<rparr>)), direct_heap) \<and>
   slice_shape composed_heap (fresh\<lparr>slices := 5\<rparr>) = Inr [3, 10, 30] \<and>
   slice_shape direct_heap (fresh\<lparr>slices := 4\<rparr>) = Inr [3, 10, 4] \<and>
   map arr_shape (fst (iter composed_heap (fresh\<lparr>slices := 5\<rparr>)))
     = [[10, 30], [10, 30], [10, 30]] \<and>
   map arr_shape (fst (iter direct_heap (fresh\<lparr>slices := 4\<rparr>)))
     = [[10, 4], [10, 4], [10, 4]] \<and>
   slices_of composed_heap narrowed = slices_of narrowed_heap narrowed"
proof (intro conjI)
  show "slices_of composed_heap narrowed = slices_of narrowed_heap narrowed"
    by (simp add: slices_of_def composed_heap_def narrowed_heap_def narrowed_def fresh_def)
qed (rule init_fresh getitem_fresh_narrowed getitem_narrowed_slice getitem_composed getitem_direct slice_shape_composed slice_shape_direct frames_composed frames_direct)+



text \<open>
  Indexing never changes a list that existed before: every branch of
  \<^verbatim>\<open>__getitem__\<close> writes to lists it has allocated itself.
\<close>

lemma getitem_keeps_lists:
  assumes "getitem fs h val hp = (res, hp')"
  shows "length hp \<le> length hp' \<and> (\<forall>a < length hp. hp' ! a = hp ! a)"
proof (cases val)
  case (IInt i)
  then show ?thesis using assms by (auto split: sum.splits)
next
  case (ISlice s)
  obtain r1 hp1 where c: "copy fs h hp = (r1, hp1)" by (cases "copy fs h hp")
  show ?thesis
  proof (cases r1)
    case (Inl e)
    then have "hp' = hp" using assms ISlice c copy_Inl by auto
    then show ?thesis by simp
  next
    case (Inr obj)
    have hp1: "hp1 = hp @ [replicate (ndim obj) full_slice]" and sl: "slices obj = length hp"
      using copy_Inr c Inr by blast+
    have "hp' = hp1 \<or> (\<exists>xs. hp' = hp1[slices obj := xs])"
      using assms ISlice c Inr by (auto split: sum.splits)
    then show ?thesis using hp1 sl by (auto simp: nth_append)
  qed
next
  case (ITuple ss)
  obtain r1 hp1 where c: "copy fs h hp = (r1, hp1)" by (cases "copy fs h hp")
  show ?thesis
  proof (cases r1)
    case (Inl e)
    then have "hp' = hp" using assms ITuple c copy_Inl by auto
    then show ?thesis by simp
  next
    case (Inr obj)
    have hp1: "hp1 = hp @ [replicate (ndim obj) full_slice]"
      using copy_Inr c Inr by blast
    let ?hp2 = "hp1 @ [slices_of hp1 h]"
    obtain r3 hp3 where s: "set_slices (length hp1) 0 ss ?hp2 = (r3, hp3)"
      by (cases "set_slices (length hp1) 0 ss ?hp2")
    have hp': "hp' = hp3"
      using assms ITuple c Inr s by (cases r3) (simp_all add: alloc_def)
    have heap: "length hp3 = length ?hp2 \<and> (\<forall>a. a \<noteq> length hp1 \<longrightarrow> hp3 ! a = ?hp2 ! a)
       \<and> length (hp3 ! length hp1) = length (?hp2 ! length hp1)"
      using s by (rule set_slices_heap)
    show ?thesis
      using heap hp1 by (auto simp: hp' nth_append)
  qed
next
  case (IOther v)
  then show ?thesis using assms by simp
qed

lemma getitem_slice_opened:
  assumes "opened fs h" and "0 < ndim h"
  shows "\<exists>obj. getitem fs h (ISlice s) hp =
            (Inr (Handle obj), hp @ [(replicate (ndim h) full_slice)[0 := s]])
          \<and> data obj = data h \<and> filename obj = filename h \<and> slices obj = length hp"
proof -
  obtain obj where c: "copy fs h hp = (Inr obj, hp @ [replicate (ndim h) full_slice])"
    and d: "data obj = data h" "slices obj = length hp" "filename obj = filename h"
    using copy_opened [OF assms(1), of hp] by blast
  have "getitem fs h (ISlice s) hp =
      (Inr (Handle obj), hp @ [(replicate (ndim h) full_slice)[0 := s]])"
    using c d(2) assms(2) by (simp add: list_assign_def)
  then show ?thesis using d by blast
qed

text \<open>
  Where the handle has not been narrowed beyond dimension 1, indexing twice and
  indexing once agree: the two handles returned have equal slices on the same series.
\<close>

lemma composed_slicing_agrees:
  assumes inv: "handle_inv hp h" and op: "opened fs h" and two: "2 \<le> ndim h"
    and rest: "\<forall>k. 2 \<le> k \<and> k < ndim h \<longrightarrow> slices_of hp h ! k = full_slice"
    and s: "s \<noteq> full_slice" and t: "t \<noteq> full_slice"
  shows "\<exists>h1 hp1 a hpa b hpb.
     getitem fs h (ISlice s) hp = (Inr (Handle h1), hp1) \<and>
     getitem fs h1 (ITuple [full_slice, t]) hp1 = (Inr (Handle a), hpa) \<and>
     getitem fs h (ITuple [s, t]) hp = (Inr (Handle b), hpb) \<and>
     slices_of hpa a = slices_of hpb b \<and> data a = data b \<and>
     slices_of hpa h = slices_of hp h \<and> slices_of hpb h = slices_of hp h"
proof -
  let ?n = "ndim h"
  let ?old = "slices_of hp h"
  let ?L1 = "(replicate ?n full_slice)[0 := s]"
  let ?hp1 = "hp @ [?L1]"
  have lt: "slices h < length hp" and len: "length ?old = ?n"
    using inv by (simp_all add: handle_inv_def)
  obtain h1 where g1: "getitem fs h (ISlice s) hp = (Inr (Handle h1), ?hp1)"
    and h1: "data h1 = data h" "filename h1 = filename h" "slices h1 = length hp"
    using getitem_slice_opened [OF op, of s hp] two by auto
  have lt1: "slices h1 < length ?hp1" using h1(3) by simp
  have op1: "opened fs h1" using op h1 by (simp add: opened_def)
  have L1: "slices_of ?hp1 h1 = ?L1" using h1(3) by (simp add: slices_of_def)
  have ok1: "opened fs h1 \<and>
      (\<forall>j < length [full_slice, t]. [full_slice, t] ! j \<noteq> full_slice
           \<longrightarrow> j < length (slices_of ?hp1 h1))"
    using op1 two by (simp add: L1 less_Suc_eq)
  obtain a hpa where g2: "getitem fs h1 (ITuple [full_slice, t]) ?hp1 = (Inr (Handle a), hpa)"
    using getitem_tuple_returns [OF lt1 op1, of "[full_slice, t]"] ok1 by blast
  have sa: "slices_of hpa a = replace_non_default ?L1 [full_slice, t]"
    using getitem_tuple_slices(1) [OF lt1 g2] L1 by simp
  have ok: "opened fs h \<and>
      (\<forall>j < length [s, t]. [s, t] ! j \<noteq> full_slice \<longrightarrow> j < length ?old)"
    using op two len by (simp add: less_Suc_eq)
  obtain b hpb where g3: "getitem fs h (ITuple [s, t]) hp = (Inr (Handle b), hpb)"
    using getitem_tuple_returns [OF lt op, of "[s, t]"] ok by blast
  have sb: "slices_of hpb b = replace_non_default ?old [s, t]" and keep_b: "slices_of hpb h = ?old"
    using getitem_tuple_slices [OF lt g3] by simp_all
  have eq: "replace_non_default ?L1 [full_slice, t] = replace_non_default ?old [s, t]"
  proof (rule nth_equalityI)
    show "length (replace_non_default ?L1 [full_slice, t]) = length (replace_non_default ?old [s, t])"
      by (simp add: replace_non_default_def len)
  next
    fix k assume "k < length (replace_non_default ?L1 [full_slice, t])"
    then have k: "k < ?n" by (simp add: replace_non_default_def)
    consider "k = 0" | "k = 1" | "2 \<le> k" by linarith
    then show "replace_non_default ?L1 [full_slice, t] ! k = replace_non_default ?old [s, t] ! k"
    proof cases
      case 1
      then show ?thesis using k s by (simp add: replace_non_default_def len)
    next
      case 2
      then show ?thesis using k t by (simp add: replace_non_default_def len)
    next
      case 3
      then have "?old ! k = full_slice" using rest k by blast
      then show ?thesis using k 3 by (simp add: replace_non_default_def len)
    qed
  qed
  have keep1: "\<forall>x < length hp. ?hp1 ! x = hp ! x"
    by (simp add: nth_append)
  have keep2: "\<forall>x < length ?hp1. hpa ! x = ?hp1 ! x"
    using getitem_keeps_lists [OF g2] by blast
  have keep_a: "slices_of hpa h = ?old"
    using keep1 keep2 lt by (simp add: slices_of_def)
  obtain oa ua where "copy fs h1 ?hp1 = (Inr oa, ?hp1 @ [replicate (ndim oa) full_slice])"
    and a: "a = oa\<lparr>slices := Suc (length ?hp1)\<rparr>"
    using getitem_tuple_Inr [OF g2] by metis
  then have da: "data a = data h"
    using copy_Inr(4) [of fs h1 ?hp1 oa] op1 h1 by (simp add: opened_def)
  obtain ob ub where "copy fs h hp = (Inr ob, hp @ [replicate (ndim ob) full_slice])"
    and b: "b = ob\<lparr>slices := Suc (length hp)\<rparr>"
    using getitem_tuple_Inr [OF g3] by metis
  then have db: "data b = data h"
    using copy_Inr(4) [of fs h hp ob] op by (simp add: opened_def)
  have "getitem fs h (ISlice s) hp = (Inr (Handle h1), ?hp1) \<and>
     getitem fs h1 (ITuple [full_slice, t]) ?hp1 = (Inr (Handle a), hpa) \<and>
     getitem fs h (ITuple [s, t]) hp = (Inr (Handle b), hpb) \<and>
     slices_of hpa a = slices_of hpb b \<and> data a = data b \<and>
     slices_of hpa h = slices_of hp h \<and> slices_of hpb h = slices_of hp h"
    using g1 g2 g3 sa sb eq keep_a keep_b da db by (simp del: getitem.simps)
  then show ?thesis by blast
qed

section \<open>One slice per dimension\<close>


lemma handle_inv_append: "handle_inv hp h \<Longrightarrow> handle_inv (hp @ xs) h"
  by (simp add: handle_inv_def slices_of_def nth_append)

lemma handle_inv_same_cell:
  "handle_inv hp h \<Longrightarrow> length hp' = length hp \<Longrightarrow> hp' ! slices h = hp ! slices h \<Longrightarrow>
     handle_inv hp' h"
  by (simp add: handle_inv_def slices_of_def)

lemma init_inv:
  assumes "init fs f ch hp = (Inr h, hp')"
  shows "handle_inv hp' h" and "opened fs h"
  using init_Inr [OF assms]
  by (simp_all add: handle_inv_def slices_of_def opened_def)

lemma copy_inv:
  assumes "copy fs h0 hp = (Inr h, hp')"
  shows "handle_inv hp' h" and "opened fs h"
  using assms init_inv [of fs "filename h0" "Some (channel h0)" hp h hp']
  by (simp_all add: copy_def)

lemma copy_keeps_inv:
  assumes "handle_inv hp h0" and "copy fs h0 hp = (r, hp')"
  shows "handle_inv hp' h0"
proof (cases r)
  case (Inl e)
  then show ?thesis using assms copy_Inl by blast
next
  case (Inr obj)
  then have "hp' = hp @ [replicate (ndim obj) full_slice]"
    using assms(2) copy_Inr(2) by blast
  then show ?thesis using assms(1) by (simp add: handle_inv_append)
qed

lemma getitem_slice_inv:
  assumes "handle_inv hp h0" and "getitem fs h0 (ISlice s) hp = (res, hp')"
  shows "handle_inv hp' h0 \<and> (\<forall>h1. res = Inr (Handle h1) \<longrightarrow> handle_inv hp' h1 \<and> opened fs h1)"
proof -
  obtain r1 hp1 where c: "copy fs h0 hp = (r1, hp1)" by (cases "copy fs h0 hp")
  have inv1: "handle_inv hp1 h0" using assms(1) c by (rule copy_keeps_inv)
  show ?thesis
  proof (cases r1)
    case (Inl e)
    then show ?thesis using assms(2) c inv1 by auto
  next
    case (Inr obj)
    have o: "handle_inv hp1 obj" "opened fs obj"
      using copy_inv c Inr by blast+
    have sl: "slices obj = length hp"
      using copy_Inr(1) c Inr by blast
    have ne: "slices h0 \<noteq> slices obj"
      using assms(1) sl by (simp add: handle_inv_def)
    show ?thesis
    proof (cases "0 < length (hp1 ! slices obj)")
      case False
      then have "res = Inl IndexError" "hp' = hp1"
        using assms(2) c Inr by (simp_all add: list_assign_def)
      then show ?thesis using inv1 by simp
    next
      case True
      then have res: "res = Inr (Handle obj)" and hp': "hp' = hp1[slices obj := (hp1 ! slices obj)[0 := s]]"
        using assms(2) c Inr by (simp_all add: list_assign_def)
      have "handle_inv hp' h0"
        using inv1 ne by (simp add: hp' handle_inv_def slices_of_def)
      moreover have "handle_inv hp' obj"
        using o(1) by (simp add: hp' handle_inv_def slices_of_def)
      ultimately show ?thesis using res o(2) by simp
    qed
  qed
qed

lemma getitem_tuple_inv:
  assumes "handle_inv hp h0" and "opened fs h0" and "getitem fs h0 (ITuple val) hp = (res, hp')"
  shows "handle_inv hp' h0 \<and> (\<forall>h1. res = Inr (Handle h1) \<longrightarrow> handle_inv hp' h1 \<and> opened fs h1)"
proof -
  obtain obj where c: "copy fs h0 hp = (Inr obj, hp @ [replicate (ndim h0) full_slice])"
    and d: "data obj = data h0" and f: "filename obj = filename h0"
    using copy_opened [OF assms(2), of hp] by blast
  let ?old = "slices_of hp h0"
  let ?hp1 = "hp @ [replicate (ndim h0) full_slice]"
  let ?hp2 = "?hp1 @ [?old]"
  let ?r = "Suc (length hp)"
  have lt: "slices h0 < length hp" using assms(1) by (simp add: handle_inv_def)
  have old: "slices_of ?hp1 h0 = ?old"
    using lt by (rule slices_of_append)
  obtain r3 hp3 where s: "set_slices ?r 0 val ?hp2 = (r3, hp3)"
    by (cases "set_slices ?r 0 val ?hp2")
  have heap: "length hp3 = length ?hp2 \<and> (\<forall>a. a \<noteq> ?r \<longrightarrow> hp3 ! a = ?hp2 ! a)
       \<and> length (hp3 ! ?r) = length (?hp2 ! ?r)"
    using s by (rule set_slices_heap)
  have cell: "?hp2 ! ?r = ?old" by (simp add: nth_append)
  have g: "getitem fs h0 (ITuple val) hp =
      (case r3 of Inl e \<Rightarrow> (Inl e, hp3) | Inr _ \<Rightarrow> (Inr (Handle (obj\<lparr>slices := ?r\<rparr>)), hp3))"
    using c s old by (simp add: alloc_def split: sum.splits)
  have hp': "hp' = hp3"
    using g assms(3) by (cases r3) simp_all
  have "slices h0 \<noteq> ?r" using lt by simp
  then have "hp3 ! slices h0 = ?hp2 ! slices h0" using heap by blast
  also have "\<dots> = hp ! slices h0" using lt by (simp add: nth_append)
  finally have same: "hp3 ! slices h0 = hp ! slices h0" .
  have inv0: "handle_inv hp' h0"
    using assms(1) lt heap same by (simp add: hp' handle_inv_def slices_of_def)
  have inv1: "handle_inv hp' h1 \<and> opened fs h1" if "res = Inr (Handle h1)" for h1
  proof -
    have h1: "h1 = obj\<lparr>slices := ?r\<rparr>"
      using g assms(3) that by (cases r3) simp_all
    have "length (hp3 ! ?r) = ndim h0"
      using heap cell assms(1) by (simp add: handle_inv_def)
    then have "handle_inv hp' h1"
      using heap d by (simp add: hp' h1 handle_inv_def slices_of_def ndim_def)
    moreover have "opened fs h1"
      using assms(2) d f by (simp add: h1 opened_def)
    ultimately show ?thesis by simp
  qed
  show ?thesis using inv0 inv1 by blast
qed

text \<open>
  Claim C8. \<open>len(slices) == ndim\<close> holds for the handle a constructor returns and for
  the handle \<^verbatim>\<open>copy\<close> returns; indexing a handle that has it, with an integer, a
  slice, a tuple of slices or anything else, leaves it true of that handle and makes
  it true of the handle returned, if one is. (Tuple indexing copies the slices of the
  original onto a handle opened anew: the file must still hold the series the original
  was opened on, which also holds of every handle returned.)
\<close>

theorem slices_length_invariant:
  "(init fs f ch hp = (Inr h, hp') \<longrightarrow> handle_inv hp' h \<and> opened fs h) \<and>
   (handle_inv hp h0 \<and> copy fs h0 hp = (Inr h, hp') \<longrightarrow>
      handle_inv hp' h0 \<and> handle_inv hp' h \<and> opened fs h) \<and>
   (handle_inv hp h0 \<and> opened fs h0 \<and> getitem fs h0 val hp = (res, hp') \<longrightarrow>
      handle_inv hp' h0 \<and>
      (\<forall>h1. res = Inr (Handle h1) \<longrightarrow> handle_inv hp' h1 \<and> opened fs h1))"
proof (intro conjI impI)
  assume "init fs f ch hp = (Inr h, hp')"
  then show "handle_inv hp' h" "opened fs h"
    by (rule init_inv)+
next
  assume a: "handle_inv hp h0 \<and> copy fs h0 hp = (Inr h, hp')"
  then show "handle_inv hp' h0" using copy_keeps_inv by blast
  from a show "handle_inv hp' h" "opened fs h" using copy_inv by blast+
next
  assume a: "handle_inv hp h0 \<and> opened fs h0 \<and> getitem fs h0 val hp = (res, hp')"
  have "handle_inv hp' h0 \<and>
      (\<forall>h1. res = Inr (Handle h1) \<longrightarrow> handle_inv hp' h1 \<and> opened fs h1)"
  proof (cases val)
    case (IInt i)
    then show ?thesis using a by (auto split: sum.splits)
  next
    case (ISlice s)
    then show ?thesis using a getitem_slice_inv by blast
  next
    case (ITuple ss)
    then show ?thesis using a getitem_tuple_inv by blast
  next
    case (IOther v)
    then show ?thesis using a by auto
  qed
  then show "handle_inv hp' h0"
    and "\<forall>h1. res = Inr (Handle h1) \<longrightarrow> handle_inv hp' h1 \<and> opened fs h1"
    by blast+
qed


theorem slices_length_invariant_witness:
  "handle_inv [[full_slice, full_slice, full_slice]] fresh \<and>
   handle_inv narrowed_heap fresh \<and> handle_inv narrowed_heap narrowed \<and>
   handle_inv direct_heap narrowed \<and> handle_inv direct_heap (fresh\<lparr>slices := 4\<rparr>)"
proof -
  have a: "handle_inv [[full_slice, full_slice, full_slice]] fresh \<and> opened example_fs fresh"
    using slices_length_invariant [where fs = example_fs and f = "''a.tif''" and ch = None
        and hp = "[]" and h = fresh and hp' = "[[full_slice, full_slice, full_slice]]"]
      init_fresh by blast
  have b: "handle_inv narrowed_heap fresh \<and> handle_inv narrowed_heap narrowed
      \<and> opened example_fs narrowed"
    using slices_length_invariant [where fs = example_fs and h0 = fresh
        and hp = "[[full_slice, full_slice, full_slice]]"
        and val = "ITuple [full_slice, full_slice, range_slice 3 7]"
        and res = "Inr (Handle narrowed)" and hp' = narrowed_heap]
      a getitem_fresh_narrowed by blast
  have c: "handle_inv direct_heap narrowed \<and> handle_inv direct_heap (fresh\<lparr>slices := 4\<rparr>)"
    using slices_length_invariant [where fs = example_fs and h0 = narrowed
        and hp = narrowed_heap
        and val = "ITuple [range_slice 2 5, range_slice 0 10]"
        and res = "Inr (Handle (fresh\<lparr>slices := 4\<rparr>))" and hp' = direct_heap]
      b getitem_direct by blast
  show ?thesis using a b c by blast
qed

section \<open>Eager reading with a channel selector\<close>


lemma np_select_channel_ok:
  assumes "arr_shape a = [F, H, W, C]" and "- int C \<le> ch" and "ch < int C"
  shows "np_select_channel a ch =
     Inr \<lparr>arr_shape = [F, H, W],
          arr_at = (\<lambda>idx. arr_at a (idx @ [nat (if ch < 0 then ch + int C else ch)]))\<rparr>"
  using assms by (simp add: np_select_channel_def Let_def)

lemma np_select_channel_out:
  assumes "arr_shape a = [F, H, W, C]" and "ch < - int C \<or> int C \<le> ch"
  shows "np_select_channel a ch = Inl IndexError"
  using assms by (auto simp: np_select_channel_def Let_def)

lemma np_transpose_shape:
  "arr_shape raw = [F, C, H, W] \<Longrightarrow> arr_shape (np_transpose_0231 raw) = [F, H, W, C]"
  by (simp add: np_transpose_0231_def)

lemma np_transpose_at:
  "arr_at (np_transpose_0231 raw) [f, y, x, c] = arr_at raw [f, c, y, x]"
  by (simp add: np_transpose_0231_def)

lemma imread_eager:
  assumes "CHR ''.'' \<in> set path" and "eager_table rd (last (split_dot path)) = Some rf"
    and "rf path = Inr raw"
  shows "imread fs rd path False (Some ch) hp =
     (if length (arr_shape raw) = 4
      then (case np_select_channel (np_transpose_0231 raw) ch of
              Inl e \<Rightarrow> (Inl e, hp) | Inr d \<Rightarrow> (Inr (Eager d), hp))
      else (Inl NotImplementedError, hp))"
  using assms by (simp add: imread_def Let_def np_transpose_0231_def)

text \<open>
  Claim C7, amended. An eager \<^verbatim>\<open>imread\<close> with a channel selector \<open>ch\<close>, on a path
  whose reader returns the array \<open>raw\<close>: if \<open>raw\<close> has shape (F, C, H, W), so that the
  transposed array has shape (F, H, W, C), and \<open>- C \<le> ch < C\<close>, the result is the
  three-dimensional array of shape (F, H, W) that holds channel \<open>ch\<close> (counted from
  the end when negative) of the transposed array; for any other \<open>ch\<close> the indexing
  raises IndexError; if \<open>raw\<close> is not four-dimensional the call fails with
  NotImplementedError.
\<close>

theorem imread_channel:
  assumes "CHR ''.'' \<in> set path" and "eager_table rd (last (split_dot path)) = Some rf"
    and "rf path = Inr raw"
  shows "(arr_shape raw = [F, C, H, W] \<and> - int C \<le> ch \<and> ch < int C \<longrightarrow>
            (\<exists>r. imread fs rd path False (Some ch) hp = (Inr (Eager r), hp) \<and>
                 arr_shape r = [F, H, W] \<and>
                 (\<forall>f y x. arr_at r [f, y, x] =
                    arr_at (np_transpose_0231 raw) [f, y, x, nat (if ch < 0 then ch + int C else ch)]) \<and>
                 (\<forall>f y x. arr_at r [f, y, x] =
                    arr_at raw [f, nat (if ch < 0 then ch + int C else ch), y, x]))) \<and>
         (arr_shape raw = [F, C, H, W] \<and> (ch < - int C \<or> int C \<le> ch) \<longrightarrow>
            imread fs rd path False (Some ch) hp = (Inl IndexError, hp)) \<and>
         (length (arr_shape raw) \<noteq> 4 \<longrightarrow>
            imread fs rd path False (Some ch) hp = (Inl NotImplementedError, hp))"
proof (intro conjI impI)
  assume a: "arr_shape raw = [F, C, H, W] \<and> - int C \<le> ch \<and> ch < int C"
  let ?c = "nat (if ch < 0 then ch + int C else ch)"
  let ?r = "\<lparr>arr_shape = [F, H, W],
             arr_at = (\<lambda>idx. arr_at (np_transpose_0231 raw) (idx @ [?c]))\<rparr>"
  have sel: "np_select_channel (np_transpose_0231 raw) ch = Inr ?r"
    by (rule np_select_channel_ok [OF np_transpose_shape]) (use a in simp_all)
  have "imread fs rd path False (Some ch) hp = (Inr (Eager ?r), hp)"
    using imread_eager [OF assms] a sel by simp
  then show "\<exists>r. imread fs rd path False (Some ch) hp = (Inr (Eager r), hp) \<and>
                 arr_shape r = [F, H, W] \<and>
                 (\<forall>f y x. arr_at r [f, y, x] = arr_at (np_transpose_0231 raw) [f, y, x, ?c]) \<and>
                 (\<forall>f y x. arr_at r [f, y, x] = arr_at raw [f, ?c, y, x])"
    by (intro exI [of _ ?r]) (simp add: np_transpose_at)
next
  assume a: "arr_shape raw = [F, C, H, W] \<and> (ch < - int C \<or> int C \<le> ch)"
  have "np_select_channel (np_transpose_0231 raw) ch = Inl IndexError"
    by (rule np_select_channel_out [OF np_transpose_shape]) (use a in blast)+
  then show "imread fs rd path False (Some ch) hp = (Inl IndexError, hp)"
    using imread_eager [OF assms] a by simp
next
  assume "length (arr_shape raw) \<noteq> 4"
  then show "imread fs rd path False (Some ch) hp = (Inl NotImplementedError, hp)"
    using imread_eager [OF assms] by simp
qed

lemma ext_a_tif: "last (split_dot ''a.tif'') = ''tif''"
  by simp

lemma ext_x_png: "last (split_dot ''x.png'') = ''png''"
  by simp

text \<open>
  The claim as first stated promises a result for every selector. On an array of
  shape (1, 1, 1, 2) after the transposition, the selector 2 raises IndexError.
\<close>

theorem imread_channel_counterexample:
  "tif_read example_readers ''a.tif'' = Inr (const_array [1, 2, 1, 1] 7) \<and>
   arr_shape (np_transpose_0231 (const_array [1, 2, 1, 1] 7)) = [1, 1, 1, 2] \<and>
   imread example_fs example_readers ''a.tif'' False (Some 2) [] = (Inl IndexError, [])"
  by (simp add: imread_def example_readers_def eager_table_def const_array_def
      np_transpose_0231_def np_select_channel_def)

theorem imread_channel_witness:
  "(\<exists>r. imread example_fs example_readers ''a.tif'' False (Some 1) [] = (Inr (Eager r), []) \<and>
        arr_shape r = [1, 1, 1] \<and> arr_at r [0, 0, 0] = 7) \<and>
   imread example_fs example_readers ''a.tif'' False (Some (- 3)) [] = (Inl IndexError, []) \<and>
   imread example_fs example_readers ''x.png'' False (Some 1) [] = (Inl NotImplementedError, [])"
proof -
  have d: "CHR ''.'' \<in> set ''a.tif''" "CHR ''.'' \<in> set ''x.png''"
    by simp_all
  have t: "eager_table example_readers (last (split_dot ''a.tif'')) = Some (tif_read example_readers)"
    by (simp add: eager_table_def)
  have p: "eager_table example_readers (last (split_dot ''x.png'')) = Some (imageio_imread example_readers)"
    by (simp add: eager_table_def)
  have rt: "tif_read example_readers ''a.tif'' = Inr (const_array [1, 2, 1, 1] 7)"
    by (simp add: example_readers_def)
  have rp: "imageio_imread example_readers ''x.png'' = Inr (const_array [2, 3, 4] 5)"
    by (simp add: example_readers_def)
  have s4: "arr_shape (const_array [1, 2, 1, 1] 7) = [1, 2, 1, 1]"
    and s3: "length (arr_shape (const_array [2, 3, 4] 5)) \<noteq> 4"
    by (simp_all add: const_array_def)
  note a = imread_channel [OF d(1) t rt, of 1 2 1 1 1 example_fs "[]"]
  note b = imread_channel [OF d(1) t rt, of 1 2 1 1 "- 3" example_fs "[]"]
  note c = imread_channel [OF d(2) p rp, of 1 2 1 1 1 example_fs "[]"]
  have "\<exists>r. imread example_fs example_readers ''a.tif'' False (Some 1) [] = (Inr (Eager r), []) \<and>
        arr_shape r = [1, 1, 1] \<and> arr_at r [0, 0, 0] = 7"
    using a s4 by (auto simp: const_array_def)
  moreover have "imread example_fs example_readers ''a.tif'' False (Some (- 3)) [] = (Inl IndexError, [])"
    using b s4 by simp
  moreover have "imread example_fs example_readers ''x.png'' False (Some 1) [] = (Inl NotImplementedError, [])"
    using c s3 by simp
  ultimately show ?thesis by blast
qed

end
